theory Spec2Isabelle
  imports Complex_Main "HOL-Library.Log_Nat"
begin

section \<open>Rhythm analysis of note events: a shallow embedding\<close>

text \<open>
  The notebook \<^verbatim>\<open>MIDI Rhythm Analysis\<close> defines four analysis functions over a list of
  note events: \<^verbatim>\<open>analyze_note_density\<close>, \<^verbatim>\<open>find_rhythm_patterns\<close>,
  \<^verbatim>\<open>analyze_syncopation\<close> and \<^verbatim>\<open>analyze_groove\<close>. Each is translated below, twice.

  The exact reading. The first translation takes every float for the real number it
  denotes and every arithmetic operation for the exact operation. It carries the
  statements that are about exact values: what the functions return on an empty list,
  the deviation bound ``under exact rounding'', and what \<^verbatim>\<open>round\<close> does with a quotient
  that is exactly halfway between two integers.

  The binary64 reading. The second translation, whose names end in \<open>_f64\<close>, follows
  IEEE 754 binary64 as Python's \<^verbatim>\<open>float\<close> implements it: every operation rounds its
  exact result to the nearest double, a result too large becomes an infinity, \<^verbatim>\<open>nan\<close>
  is a value, and \<^verbatim>\<open>round\<close> and the conversion of an int raise where Python raises. It
  carries every statement that ranges over arbitrary floats, where rounding, overflow
  and \<^verbatim>\<open>nan\<close> decide what the code does.

  Python ints (velocity, histogram counts) are \<^typ>\<open>int\<close> in both.

  Failures. A Python exception is a value: the functions return \<open>Inl\<close> of the error
  raised and \<open>Inr\<close> of the result otherwise.
\<close>

subsection \<open>Data\<close>

datatype py_error = ZeroDivisionError | ValueError | OverflowError

text \<open>The dictionary built by \<^verbatim>\<open>extract_note_events\<close> for one note.\<close>

record note_event =
  start :: real
  end_time :: real
  duration :: real
  pitch :: int
  velocity :: int
  instrument :: int

text \<open>The dictionaries \<^verbatim>\<open>{'time': .., 'score': ..}\<close> and \<^verbatim>\<open>{'time': .., 'deviation': ..}\<close>.\<close>

record syncopation_record =
  time :: real
  score :: real

record groove_record =
  time :: real
  deviation :: real

text \<open>
  \<^verbatim>\<open>patterns\<close> is a \<^verbatim>\<open>defaultdict(int)\<close> keyed by tuples of floats. A Python dictionary
  keeps its keys in insertion order, so it is an association list with distinct keys; a
  tuple of floats is a list of reals.
\<close>

type_synonym histogram = "(real list \<times> int) list"

section \<open>The exact reading\<close>

subsection \<open>Built-in operations of Python and NumPy\<close>

text \<open>
  \<^verbatim>\<open>round(x)\<close> on a float returns the nearest integer and, when \<open>x\<close> is exactly halfway
  between two integers, the even one.
\<close>

definition py_round :: "real \<Rightarrow> int" where
  "py_round x =
     (let f = \<lfloor>x\<rfloor>; d = x - of_int f in
      if d < 1 / 2 then f
      else if 1 / 2 < d then f + 1
      else if even f then f else f + 1)"

text \<open>
  \<^verbatim>\<open>a % b\<close> with \<open>b \<noteq> 0\<close>, exactly: the remainder has the sign of \<open>b\<close>. The callers
  check \<open>b = 0\<close> themselves, where Python raises.
\<close>

definition py_fmod :: "real \<Rightarrow> real \<Rightarrow> real" where
  "py_fmod a b = a - b * of_int \<lfloor>a / b\<rfloor>"

text \<open>
  \<^verbatim>\<open>max(event['end'] for event in note_events)\<close>: the running maximum, \<^verbatim>\<open>ValueError\<close>
  on an empty sequence.
\<close>

fun py_max :: "real list \<Rightarrow> py_error + real" where
  "py_max [] = Inl ValueError"
| "py_max (x # xs) = Inr (foldl max x xs)"

text \<open>
  \<^verbatim>\<open>np.arange(start, stop, step)\<close> belongs to NumPy, not to the notebook. Following
  NumPy's documentation it has \<open>\<lceil>(stop - start) / step\<rceil>\<close> entries (none when that is
  not positive), entry \<open>i\<close> being \<open>start + i * step\<close>, all taken exactly here; the quotient
  is a division, which fails for a zero step.
\<close>

definition np_arange :: "real \<Rightarrow> real \<Rightarrow> real \<Rightarrow> py_error + real list" where
  "np_arange a b step =
     (if step = 0 then Inl ZeroDivisionError
      else Inr (map (\<lambda>i. a + of_nat i * step) [0..<nat \<lceil>(b - a) / step\<rceil>]))"

subsection \<open>\<^verbatim>\<open>analyze_note_density\<close>\<close>

text \<open>\<^verbatim>\<open>sum(1 for note in note_events if note['start'] <= t <= note['end'])\<close>\<close>

definition notes_in_window :: "note_event list \<Rightarrow> real \<Rightarrow> int" where
  "notes_in_window note_events t =
     sum_list (map (\<lambda>note. 1) (filter (\<lambda>note. start note \<le> t \<and> t \<le> end_time note) note_events))"

definition analyze_note_density ::
  "note_event list \<Rightarrow> real \<Rightarrow> py_error + (real list \<times> int list)" where
  "analyze_note_density note_events window_size =
     (if note_events = [] then Inr ([], [])
      else case py_max (map end_time note_events) of
        Inl e \<Rightarrow> Inl e
      | Inr max_time \<Rightarrow>
          (case np_arange 0 max_time window_size of
             Inl e \<Rightarrow> Inl e
           | Inr time_points \<Rightarrow>
               Inr (time_points, map (notes_in_window note_events) time_points)))"

subsection \<open>\<^verbatim>\<open>find_rhythm_patterns\<close>\<close>

text \<open>\<^verbatim>\<open>patterns[pattern_tuple] += 1\<close> on a \<^verbatim>\<open>defaultdict(int)\<close>.\<close>

fun incr :: "real list \<Rightarrow> histogram \<Rightarrow> histogram" where
  "incr k [] = [(k, 0 + 1)]"
| "incr k ((k', c) # rest) =
     (if k' = k then (k', c + 1) # rest else (k', c) # incr k rest)"

text \<open>
  The expression assigned to \<^verbatim>\<open>ioi\<close> in iteration \<open>i\<close>:
  \<^verbatim>\<open>round((note_events[i]['start'] - note_events[i-1]['start']) / quantization) * quantization\<close>.
\<close>

definition quantized_ioi :: "note_event list \<Rightarrow> real \<Rightarrow> nat \<Rightarrow> real" where
  "quantized_ioi note_events quantization i =
     of_int (py_round ((start (note_events ! i) - start (note_events ! (i - 1))) / quantization))
       * quantization"

text \<open>
  The loop body, over the remaining indices of \<^verbatim>\<open>range(1, len(note_events))\<close>, with the
  loop's two variables \<^verbatim>\<open>current_pattern\<close> and \<^verbatim>\<open>patterns\<close> as its state. In exact
  arithmetic the division fails at a zero quantization only.
\<close>

fun pattern_loop ::
  "note_event list \<Rightarrow> real \<Rightarrow> nat list \<Rightarrow> real list \<Rightarrow> histogram \<Rightarrow> py_error + histogram" where
  "pattern_loop note_events quantization [] current_pattern patterns = Inr patterns"
| "pattern_loop note_events quantization (i # rest) current_pattern patterns =
     (if quantization = 0 then Inl ZeroDivisionError
      else
        let ioi = quantized_ioi note_events quantization i;
            current_pattern = current_pattern @ [ioi]
        in if length current_pattern = 4
           then pattern_loop note_events quantization rest
                  (drop 1 current_pattern) (incr current_pattern patterns)
           else pattern_loop note_events quantization rest current_pattern patterns)"

definition find_rhythm_patterns :: "note_event list \<Rightarrow> real \<Rightarrow> py_error + histogram" where
  "find_rhythm_patterns note_events quantization =
     pattern_loop note_events quantization [1..<length note_events] [] []"

subsection \<open>\<^verbatim>\<open>analyze_syncopation\<close>\<close>

fun syncopation_loop ::
  "note_event list \<Rightarrow> real \<Rightarrow> syncopation_record list \<Rightarrow> py_error + syncopation_record list" where
  "syncopation_loop [] beats_per_bar syncopation_scores = Inr syncopation_scores"
| "syncopation_loop (note # rest) beats_per_bar syncopation_scores =
     (if beats_per_bar = 0 then Inl ZeroDivisionError
      else
        let position_in_bar = py_fmod (start note) beats_per_bar;
            is_strong_beat = (py_fmod position_in_bar 1 < 1 / 10);
            velocity_factor = of_int (velocity note) / 127
        in if \<not> is_strong_beat \<and> velocity_factor > 1 / 2
           then syncopation_loop rest beats_per_bar
                  (syncopation_scores @
                     [\<lparr>syncopation_record.time = start note,
                       score = velocity_factor * (1 - py_fmod position_in_bar 1)\<rparr>])
           else syncopation_loop rest beats_per_bar syncopation_scores)"

definition analyze_syncopation ::
  "note_event list \<Rightarrow> real \<Rightarrow> py_error + syncopation_record list" where
  "analyze_syncopation note_events beats_per_bar = syncopation_loop note_events beats_per_bar []"

subsection \<open>\<^verbatim>\<open>analyze_groove\<close>\<close>

fun groove_loop ::
  "note_event list \<Rightarrow> real \<Rightarrow> groove_record list \<Rightarrow> py_error + groove_record list" where
  "groove_loop [] quantization groove_deviations = Inr groove_deviations"
| "groove_loop (note # rest) quantization groove_deviations =
     (if quantization = 0 then Inl ZeroDivisionError
      else
        let quantized_start = of_int (py_round (start note / quantization)) * quantization;
            deviation = start note - quantized_start
        in groove_loop rest quantization
             (groove_deviations @ [\<lparr>groove_record.time = start note, deviation = deviation\<rparr>]))"

definition analyze_groove :: "note_event list \<Rightarrow> real \<Rightarrow> py_error + groove_record list" where
  "analyze_groove note_events quantization = groove_loop note_events quantization []"

subsection \<open>Notions used to state the properties\<close>

text \<open>
  The dictionary \<^verbatim>\<open>extract_note_events\<close> appends for a note of an instrument: its
  \<^verbatim>\<open>duration\<close> is \<^verbatim>\<open>note.end - note.start\<close>.
\<close>

definition make_note :: "real \<Rightarrow> real \<Rightarrow> int \<Rightarrow> int \<Rightarrow> int \<Rightarrow> note_event" where
  "make_note s e p v prog =
     \<lparr>start = s, end_time = e, duration = e - s, pitch = p, velocity = v, instrument = prog\<rparr>"

text \<open>The consecutive overlapping 4-grams of a sequence, in order of their first element.\<close>

definition four_grams :: "'a list \<Rightarrow> 'a list list" where
  "four_grams ys = map (\<lambda>j. take 4 (drop j ys)) [0..<length ys - 3]"

section \<open>The binary64 reading\<close>

subsection \<open>Binary64 numbers\<close>

text \<open>
  A Python \<^verbatim>\<open>float\<close> is an IEEE 754 binary64 number: a finite value \<open>m * 2^e\<close> with
  \<open>|m| < 2^53\<close> and \<open>-1074 \<le> e \<le> 971\<close>, an infinity, or \<^verbatim>\<open>nan\<close>. A finite value is carried
  as the real it denotes. The sign of a zero is not represented: comparison, \<^verbatim>\<open>round\<close>
  and dictionary lookup, the only places where the four functions look at a value, take
  \<^verbatim>\<open>-0.0\<close> and \<^verbatim>\<open>0.0\<close> for the same.
\<close>

datatype pyfloat = Finite real | PosInf | NegInf | NaN

definition is_double :: "real \<Rightarrow> bool" where
  "is_double c = (\<exists>m e. c = of_int m * 2 powi e \<and> \<bar>m\<bar> < 2 ^ 53 \<and> - 1074 \<le> e \<and> e \<le> 971)"

text \<open>
  \<open>floor_log2 x\<close> is \<open>\<lfloor>log\<^sub>2 x\<rfloor>\<close> for a positive real, computed from the length in bits of an
  integer so that it can be evaluated.
\<close>

definition floor_log2 :: "real \<Rightarrow> int" where
  "floor_log2 x = (if 1 \<le> x then bitlen \<lfloor>x\<rfloor> - 1 else - bitlen (\<lceil>1 / x\<rceil> - 1))"

text \<open>
  Rounding to nearest, ties to even, which every arithmetic operation below applies to
  its exact result. Around \<open>x\<close> the doubles are the multiples of
  \<open>u = 2^(max \<lfloor>log\<^sub>2 |x|\<rfloor> (-1022) - 52)\<close> (the exponent stops at \<open>-1022\<close>, where the subnormal
  numbers begin); \<open>x / u\<close> is rounded to an integer with ties to the even one, which is
  \<^const>\<open>py_round\<close>; a result of magnitude \<open>2^1024\<close> is an infinity.
\<close>

definition round_b64 :: "real \<Rightarrow> pyfloat" where
  "round_b64 x =
     (if x = 0 then Finite 0
      else
        let u = 2 powi (max (floor_log2 \<bar>x\<bar>) (- 1022) - 52);
            y = of_int (py_round (x / u)) * u
        in if 2 ^ 1024 \<le> y then PosInf
           else if y \<le> - (2 ^ 1024) then NegInf
           else Finite y)"

text \<open>A float literal of the source, such as \<^verbatim>\<open>0.1\<close>: the double nearest to the decimal.\<close>

definition float_literal :: "real \<Rightarrow> pyfloat" where
  "float_literal x = round_b64 x"

subsection \<open>Arithmetic of Python floats\<close>

text \<open>Negation, addition, subtraction, multiplication: IEEE 754, never raising.\<close>

fun float_neg :: "pyfloat \<Rightarrow> pyfloat" where
  "float_neg (Finite x) = Finite (- x)"
| "float_neg PosInf = NegInf"
| "float_neg NegInf = PosInf"
| "float_neg NaN = NaN"

fun float_add :: "pyfloat \<Rightarrow> pyfloat \<Rightarrow> pyfloat" where
  "float_add (Finite x) (Finite y) = round_b64 (x + y)"
| "float_add NaN b = NaN"
| "float_add a NaN = NaN"
| "float_add PosInf NegInf = NaN"
| "float_add NegInf PosInf = NaN"
| "float_add PosInf b = PosInf"
| "float_add NegInf b = NegInf"
| "float_add a PosInf = PosInf"
| "float_add a NegInf = NegInf"

definition float_sub :: "pyfloat \<Rightarrow> pyfloat \<Rightarrow> pyfloat" where
  "float_sub a b = float_add a (float_neg b)"

fun float_sign :: "pyfloat \<Rightarrow> int" where
  "float_sign (Finite x) = (if 0 < x then 1 else if x < 0 then - 1 else 0)"
| "float_sign PosInf = 1"
| "float_sign NegInf = - 1"
| "float_sign NaN = 0"

fun float_mul :: "pyfloat \<Rightarrow> pyfloat \<Rightarrow> pyfloat" where
  "float_mul (Finite x) (Finite y) = round_b64 (x * y)"
| "float_mul NaN b = NaN"
| "float_mul a NaN = NaN"
| "float_mul a b =
     (if float_sign a * float_sign b = 0 then NaN
      else if 0 < float_sign a * float_sign b then PosInf else NegInf)"

text \<open>
  \<^verbatim>\<open>a / b\<close>: \<^verbatim>\<open>ZeroDivisionError\<close> for a zero divisor, IEEE 754 otherwise; a quotient too
  large is an infinity, not an exception.
\<close>

fun float_div :: "pyfloat \<Rightarrow> pyfloat \<Rightarrow> py_error + pyfloat" where
  "float_div a (Finite y) =
     (if y = 0 then Inl ZeroDivisionError
      else case a of
        Finite x \<Rightarrow> Inr (round_b64 (x / y))
      | NaN \<Rightarrow> Inr NaN
      | _ \<Rightarrow> Inr (if 0 < float_sign a * float_sign (Finite y) then PosInf else NegInf))"
| "float_div a NaN = Inr NaN"
| "float_div (Finite x) b = Inr (Finite 0)"
| "float_div a b = Inr NaN"

text \<open>\<^verbatim>\<open>a < b\<close> and \<^verbatim>\<open>a <= b\<close>: false whenever an operand is \<^verbatim>\<open>nan\<close>.\<close>

fun float_lt :: "pyfloat \<Rightarrow> pyfloat \<Rightarrow> bool" where
  "float_lt (Finite x) (Finite y) = (x < y)"
| "float_lt NaN b = False"
| "float_lt a NaN = False"
| "float_lt PosInf b = False"
| "float_lt a NegInf = False"
| "float_lt a b = True"

definition float_le :: "pyfloat \<Rightarrow> pyfloat \<Rightarrow> bool" where
  "float_le a b = (float_lt a b \<or> (a = b \<and> a \<noteq> NaN))"

text \<open>
  \<^verbatim>\<open>a % b\<close> as CPython's \<^verbatim>\<open>float_rem\<close> computes it: \<^verbatim>\<open>ZeroDivisionError\<close> for a zero
  modulus; otherwise C's \<^verbatim>\<open>fmod\<close>, which is exact and has the sign of \<open>a\<close>, and, when that
  is not zero and its sign differs from the sign of \<open>b\<close>, the float sum \<^verbatim>\<open>mod + b\<close>.
  That sum is rounded, so the result can be \<open>b\<close> itself.
\<close>

definition c_trunc :: "real \<Rightarrow> int" where
  "c_trunc q = (if 0 \<le> q then \<lfloor>q\<rfloor> else \<lceil>q\<rceil>)"

fun c_fmod :: "pyfloat \<Rightarrow> pyfloat \<Rightarrow> pyfloat" where
  "c_fmod (Finite x) (Finite y) = Finite (x - y * of_int (c_trunc (x / y)))"
| "c_fmod (Finite x) PosInf = Finite x"
| "c_fmod (Finite x) NegInf = Finite x"
| "c_fmod a b = NaN"

definition float_rem :: "pyfloat \<Rightarrow> pyfloat \<Rightarrow> py_error + pyfloat" where
  "float_rem a b =
     (if b = Finite 0 then Inl ZeroDivisionError
      else
        let m = c_fmod a b
        in Inr (if m = Finite 0 then Finite 0
                else if float_lt b (Finite 0) \<noteq> float_lt m (Finite 0) then float_add m b
                else m))"

text \<open>
  \<^verbatim>\<open>round(x)\<close> of a float: the nearest integer, ties to even; \<^verbatim>\<open>ValueError\<close> for
  \<^verbatim>\<open>nan\<close>, \<^verbatim>\<open>OverflowError\<close> for an infinity.
\<close>

fun float_round :: "pyfloat \<Rightarrow> py_error + int" where
  "float_round (Finite x) = Inr (py_round x)"
| "float_round NaN = Inl ValueError"
| "float_round a = Inl OverflowError"

text \<open>
  The conversion of an int that meets a float in an operation: the nearest double,
  \<^verbatim>\<open>OverflowError\<close> when the int is too large for a float.
\<close>

definition float_of_int :: "int \<Rightarrow> py_error + pyfloat" where
  "float_of_int k =
     (case round_b64 (of_int k) of Finite y \<Rightarrow> Inr (Finite y) | _ \<Rightarrow> Inl OverflowError)"

subsection \<open>Data\<close>

text \<open>The note dictionary, the histogram with float keys, and a constructor of notes.\<close>

record note_event_f64 =
  start_f64 :: pyfloat
  end_f64 :: pyfloat
  duration_f64 :: pyfloat
  pitch_f64 :: int
  velocity_f64 :: int
  instrument_f64 :: int

type_synonym histogram_f64 = "(pyfloat list \<times> int) list"

definition make_note_f64 :: "pyfloat \<Rightarrow> pyfloat \<Rightarrow> int \<Rightarrow> int \<Rightarrow> int \<Rightarrow> note_event_f64" where
  "make_note_f64 s e p v prog =
     \<lparr>start_f64 = s, end_f64 = e, duration_f64 = float_sub e s, pitch_f64 = p,
      velocity_f64 = v, instrument_f64 = prog\<rparr>"

subsection \<open>\<^verbatim>\<open>analyze_note_density\<close> in binary64\<close>





subsection \<open>\<^verbatim>\<open>find_rhythm_patterns\<close> in binary64\<close>

text \<open>
  \<^verbatim>\<open>patterns[pattern_tuple] += 1\<close>. A tuple is found among the keys when it is equal to
  one; a tuple holding \<^verbatim>\<open>nan\<close> is equal to no tuple built before it, so it always opens
  a new entry.
\<close>

fun incr_f64 :: "pyfloat list \<Rightarrow> histogram_f64 \<Rightarrow> histogram_f64" where
  "incr_f64 k [] = [(k, 0 + 1)]"
| "incr_f64 k ((k', c) # rest) =
     (if k' = k \<and> NaN \<notin> set k then (k', c + 1) # rest else (k', c) # incr_f64 k rest)"

text \<open>
  \<^verbatim>\<open>round((note_events[i]['start'] - note_events[i-1]['start']) / quantization) * quantization\<close>,
  operation by operation: the float difference, the float quotient, \<^verbatim>\<open>round\<close>, the
  conversion of its int, the float product.
\<close>

definition quantized_ioi_f64 :: "note_event_f64 list \<Rightarrow> pyfloat \<Rightarrow> nat \<Rightarrow> py_error + pyfloat" where
  "quantized_ioi_f64 note_events quantization i =
     (case float_div (float_sub (start_f64 (note_events ! i)) (start_f64 (note_events ! (i - 1))))
             quantization of
        Inl e \<Rightarrow> Inl e
      | Inr ratio \<Rightarrow>
          (case float_round ratio of
             Inl e \<Rightarrow> Inl e
           | Inr k \<Rightarrow>
               (case float_of_int k of
                  Inl e \<Rightarrow> Inl e
                | Inr kf \<Rightarrow> Inr (float_mul kf quantization))))"

fun pattern_loop_f64 ::
  "note_event_f64 list \<Rightarrow> pyfloat \<Rightarrow> nat list \<Rightarrow> pyfloat list \<Rightarrow> histogram_f64
     \<Rightarrow> py_error + histogram_f64" where
  "pattern_loop_f64 note_events quantization [] current_pattern patterns = Inr patterns"
| "pattern_loop_f64 note_events quantization (i # rest) current_pattern patterns =
     (case quantized_ioi_f64 note_events quantization i of
        Inl e \<Rightarrow> Inl e
      | Inr ioi \<Rightarrow>
          (let current_pattern = current_pattern @ [ioi]
           in if length current_pattern = 4
              then pattern_loop_f64 note_events quantization rest
                     (drop 1 current_pattern) (incr_f64 current_pattern patterns)
              else pattern_loop_f64 note_events quantization rest current_pattern patterns))"

definition find_rhythm_patterns_f64 ::
  "note_event_f64 list \<Rightarrow> pyfloat \<Rightarrow> py_error + histogram_f64" where
  "find_rhythm_patterns_f64 note_events quantization =
     pattern_loop_f64 note_events quantization [1..<length note_events] [] []"

subsection \<open>\<^verbatim>\<open>analyze_syncopation\<close> in binary64\<close>

text \<open>
  One iteration of the loop: the error it raises, or the \<^verbatim>\<open>(time, score)\<close> record it
  appends, if any.
\<close>

definition syncopation_body_f64 ::
  "note_event_f64 \<Rightarrow> pyfloat \<Rightarrow> py_error + (pyfloat \<times> pyfloat) option" where
  "syncopation_body_f64 note beats_per_bar =
     (case float_rem (start_f64 note) beats_per_bar of
        Inl e \<Rightarrow> Inl e
      | Inr position_in_bar \<Rightarrow>
          (case float_rem position_in_bar (float_literal 1) of
             Inl e \<Rightarrow> Inl e
           | Inr fractional \<Rightarrow>
               (let is_strong_beat = float_lt fractional (float_literal (1 / 10))
                in case float_of_int (velocity_f64 note) of
                     Inl e \<Rightarrow> Inl e
                   | Inr v \<Rightarrow>
                       (case float_div v (float_literal 127) of
                          Inl e \<Rightarrow> Inl e
                        | Inr velocity_factor \<Rightarrow>
                            if \<not> is_strong_beat
                               \<and> float_lt (float_literal (1 / 2)) velocity_factor
                            then Inr (Some (start_f64 note,
                                   float_mul velocity_factor
                                     (float_sub (float_literal 1) fractional)))
                            else Inr None))))"

fun syncopation_loop_f64 ::
  "note_event_f64 list \<Rightarrow> pyfloat \<Rightarrow> (pyfloat \<times> pyfloat) list
     \<Rightarrow> py_error + (pyfloat \<times> pyfloat) list" where
  "syncopation_loop_f64 [] beats_per_bar syncopation_scores = Inr syncopation_scores"
| "syncopation_loop_f64 (note # rest) beats_per_bar syncopation_scores =
     (case syncopation_body_f64 note beats_per_bar of
        Inl e \<Rightarrow> Inl e
      | Inr None \<Rightarrow> syncopation_loop_f64 rest beats_per_bar syncopation_scores
      | Inr (Some r) \<Rightarrow> syncopation_loop_f64 rest beats_per_bar (syncopation_scores @ [r]))"

definition analyze_syncopation_f64 ::
  "note_event_f64 list \<Rightarrow> pyfloat \<Rightarrow> py_error + (pyfloat \<times> pyfloat) list" where
  "analyze_syncopation_f64 note_events beats_per_bar =
     syncopation_loop_f64 note_events beats_per_bar []"

subsection \<open>\<^verbatim>\<open>analyze_groove\<close> in binary64\<close>




subsection \<open>Notions used to state the properties\<close>

text \<open>The count a histogram holds for a key, \<open>0\<close> for a key it does not have.\<close>

definition lookup_count_f64 :: "histogram_f64 \<Rightarrow> pyfloat list \<Rightarrow> int" where
  "lookup_count_f64 h k = (case map_of h k of None \<Rightarrow> 0 | Some c \<Rightarrow> c)"

text \<open>
  The quantities the syncopation scorer computes for a note, as float expressions:
  \<^verbatim>\<open>(start % beats_per_bar) % 1.0\<close>, \<^verbatim>\<open>velocity / 127.0\<close>, the test
  \<^verbatim>\<open>not is_strong_beat and velocity_factor > 0.5\<close> and the score
  \<^verbatim>\<open>velocity_factor * (1 - fractional)\<close>. Where an operation raises they are \<^verbatim>\<open>nan\<close>.
\<close>

definition fractional_f64 :: "pyfloat \<Rightarrow> pyfloat \<Rightarrow> pyfloat" where
  "fractional_f64 s beats_per_bar =
     (case float_rem s beats_per_bar of
        Inl e \<Rightarrow> NaN
      | Inr position_in_bar \<Rightarrow>
          (case float_rem position_in_bar (float_literal 1) of Inl e \<Rightarrow> NaN | Inr f \<Rightarrow> f))"

definition velocity_factor_f64 :: "note_event_f64 \<Rightarrow> pyfloat" where
  "velocity_factor_f64 note =
     (case float_of_int (velocity_f64 note) of
        Inl e \<Rightarrow> NaN
      | Inr v \<Rightarrow> (case float_div v (float_literal 127) of Inl e \<Rightarrow> NaN | Inr vf \<Rightarrow> vf))"

definition syncopated_f64 :: "note_event_f64 \<Rightarrow> pyfloat \<Rightarrow> bool" where
  "syncopated_f64 note beats_per_bar =
     (\<not> float_lt (fractional_f64 (start_f64 note) beats_per_bar) (float_literal (1 / 10))
      \<and> float_lt (float_literal (1 / 2)) (velocity_factor_f64 note))"

definition score_f64 :: "note_event_f64 \<Rightarrow> pyfloat \<Rightarrow> pyfloat" where
  "score_f64 note beats_per_bar =
     float_mul (velocity_factor_f64 note)
       (float_sub (float_literal 1) (fractional_f64 (start_f64 note) beats_per_bar))"

section \<open>Empty input\<close>

text \<open>
  Claim C5. On an empty note list the density profiler returns two empty sequences, the
  pattern finder an empty histogram, and the syncopation scorer and the groove analyzer
  empty lists; none of the four fails, whatever the scalar parameter is.
\<close>

theorem empty_input_returns_empty:
  "analyze_note_density [] window_size = Inr ([], [])
   \<and> find_rhythm_patterns [] quantization = Inr []
   \<and> analyze_syncopation [] beats_per_bar = Inr []
   \<and> analyze_groove [] quantization' = Inr []"
  by (simp add: analyze_note_density_def find_rhythm_patterns_def
      analyze_syncopation_def analyze_groove_def)
section \<open>The exact reading: rounding and the groove analyzer\<close>

subsection \<open>4-grams\<close>

lemma four_grams_short: "length ys < 4 \<Longrightarrow> four_grams ys = []"
  by (simp add: four_grams_def)

lemma four_grams_step:
  assumes "4 \<le> length ys"
  shows "four_grams ys = take 4 ys # four_grams (tl ys)"
proof -
  from assms obtain n where n: "length ys = 4 + n"
    using le_Suc_ex by blast
  have "[0..<Suc n] = 0 # map Suc [0..<n]"
    by (simp add: upt_conv_Cons map_Suc_upt del: upt_Suc)
  then show ?thesis
    by (simp add: four_grams_def n drop_Suc comp_def del: upt_Suc)
qed

lemma length_four_grams: "length (four_grams ys) = length ys - 3"
  by (simp add: four_grams_def)
subsection \<open>Rounding\<close>


lemma py_round_near: "\<bar>x - of_int (py_round x)\<bar> \<le> 1 / 2"
proof -
  have "of_int \<lfloor>x\<rfloor> \<le> x" "x < of_int \<lfloor>x\<rfloor> + 1" by linarith+
  then show ?thesis by (auto simp: py_round_def Let_def)
qed

subsection \<open>The groove analyzer\<close>

lemma deviation_bound:
  assumes "0 < q"
  shows "\<bar>s - of_int (py_round (s / q)) * q\<bar> \<le> q / 2"
proof -
  have "s - of_int (py_round (s / q)) * q = (s / q - of_int (py_round (s / q))) * q"
    using assms by (simp add: algebra_simps)
  then have "\<bar>s - of_int (py_round (s / q)) * q\<bar> = \<bar>s / q - of_int (py_round (s / q))\<bar> * q"
    using assms by (simp add: abs_mult)
  also have "\<dots> \<le> (1 / 2) * q"
    using assms py_round_near [of "s / q"] by (intro mult_right_mono) simp_all
  finally show ?thesis by simp
qed

lemma groove_loop_eq:
  assumes "quantization \<noteq> 0"
  shows "groove_loop note_events quantization acc
    = Inr (acc @ map (\<lambda>note. \<lparr>groove_record.time = start note,
                         deviation = start note
                           - of_int (py_round (start note / quantization)) * quantization\<rparr>)
                  note_events)"
  using assms by (induction note_events arbitrary: acc) (simp_all add: Let_def)

lemma analyze_groove_eq:
  assumes "quantization \<noteq> 0"
  shows "analyze_groove note_events quantization
    = Inr (map (\<lambda>note. \<lparr>groove_record.time = start note,
                   deviation = start note
                     - of_int (py_round (start note / quantization)) * quantization\<rparr>)
             note_events)"
  using groove_loop_eq [OF assms, of note_events "[]"] by (simp add: analyze_groove_def)

text \<open>
  Claim C4, where it fails. The claim puts the deviation in the half-open interval
  \<open>(-q/2, +q/2]\<close>. \<^verbatim>\<open>round\<close> takes a tie to the even neighbour, which can be the upper
  one: a note starting at \<open>0.375\<close> on a grid of \<open>0.25\<close> is quantized to \<open>0.5\<close>, and its
  deviation is \<open>-0.125 = -q/2\<close>, the excluded end.
\<close>

theorem groove_deviation_at_lower_end:
  "analyze_groove [make_note (3 / 8) 1 60 100 0] (1 / 4)
     = Inr [\<lparr>groove_record.time = 3 / 8, deviation = - (1 / 8)\<rparr>]
   \<and> \<not> - ((1 / 4) / 2) < (- (1 / 8) :: real)"
  by (simp add: analyze_groove_def make_note_def py_round_def Let_def)

text \<open>
  Claim C4, amended. For every note and every quantization \<open>q > 0\<close> the groove analyzer
  emits one record per note, in order, whose deviation
  \<open>start - round(start / q) * q\<close> lies in the closed interval \<open>[-q/2, +q/2]\<close>.
\<close>

theorem groove_deviation_bound:
  assumes "0 < quantization"
  shows "\<exists>records. analyze_groove note_events quantization = Inr records
     \<and> length records = length note_events
     \<and> (\<forall>i < length note_events.
           groove_record.time (records ! i) = start (note_events ! i)
           \<and> deviation (records ! i)
               = start (note_events ! i)
                 - of_int (py_round (start (note_events ! i) / quantization)) * quantization
           \<and> - (quantization / 2) \<le> deviation (records ! i)
           \<and> deviation (records ! i) \<le> quantization / 2)"
proof -
  have q: "quantization \<noteq> 0" using assms by simp
  have "- (quantization / 2) \<le> s - of_int (py_round (s / quantization)) * quantization
      \<and> s - of_int (py_round (s / quantization)) * quantization \<le> quantization / 2" for s
    using deviation_bound [OF assms, of s] by linarith
  then show ?thesis
    using analyze_groove_eq [OF q, of note_events] by simp
qed

theorem groove_deviation_bound_witness:
  "(0::real) < 1 / 4
   \<and> analyze_groove [make_note (3 / 8) 1 60 100 0, make_note (1 / 8) 1 60 100 0,
                      make_note (13 / 50) 1 60 100 0] (1 / 4)
       = Inr [\<lparr>groove_record.time = 3 / 8, deviation = - (1 / 8)\<rparr>,
              \<lparr>groove_record.time = 1 / 8, deviation = 1 / 8\<rparr>,
              \<lparr>groove_record.time = 13 / 50, deviation = 1 / 100\<rparr>]
   \<and> (\<exists>records. analyze_groove [make_note (3 / 8) 1 60 100 0, make_note (1 / 8) 1 60 100 0,
                      make_note (13 / 50) 1 60 100 0] (1 / 4) = Inr records
         \<and> length records = 3)"
proof -
  let ?ns = "[make_note (3 / 8) 1 60 100 0, make_note (1 / 8) 1 60 100 0,
              make_note (13 / 50) 1 60 100 0]"
  have pos: "(0::real) < 1 / 4" by simp
  have run: "analyze_groove ?ns (1 / 4)
       = Inr [\<lparr>groove_record.time = 3 / 8, deviation = - (1 / 8)\<rparr>,
              \<lparr>groove_record.time = 1 / 8, deviation = 1 / 8\<rparr>,
              \<lparr>groove_record.time = 13 / 50, deviation = 1 / 100\<rparr>]"
    by (simp add: analyze_groove_def make_note_def py_round_def Let_def)
  from groove_deviation_bound [OF pos, of ?ns]
  have "\<exists>records. analyze_groove ?ns (1 / 4) = Inr records \<and> length records = 3"
    by auto
  with pos run show ?thesis by blast
qed
subsection \<open>The rounding rule of the pattern finder\<close>



section \<open>Binary64 rounding\<close>

subsection \<open>The exponent and the rounding function\<close>

lemma powi_mono: "a \<le> b \<Longrightarrow> (2::real) powi a \<le> 2 powi b"
  by (rule power_int_increasing) simp_all

lemma powi_pos: "0 < (2::real) powi a"
  by simp

lemma powi_add: "(2::real) powi (a + b) = 2 powi a * 2 powi b"
  by (simp add: power_int_add)

lemma powi_diff: "(2::real) powi (a - b) = 2 powi a / 2 powi b"
  by (simp add: power_int_diff)

lemma floor_log2_bounds:
  assumes "0 < x"
  shows "2 powi (floor_log2 x) \<le> x" and "x < 2 powi (floor_log2 x + 1)"
proof -
  have "2 powi (floor_log2 x) \<le> x \<and> x < 2 powi (floor_log2 x + 1)"
  proof (cases "1 \<le> x")
    case True
    let ?n = "\<lfloor>x\<rfloor>"
    have n: "0 < ?n" using True by simp
    have b1: "1 \<le> bitlen ?n" using n by (simp add: bitlen_alt_def)
    from bitlen_bounds [OF n]
    have lo: "(2::int) ^ nat (bitlen ?n - 1) \<le> ?n" and hi: "?n < 2 ^ nat (bitlen ?n)" by simp_all
    have "(2::real) ^ nat (bitlen ?n - 1) \<le> of_int ?n"
      using lo by (metis of_int_le_iff of_int_numeral of_int_power)
    moreover have "of_int ?n \<le> x" by (rule of_int_floor_le)
    ultimately have "(2::real) ^ nat (bitlen ?n - 1) \<le> x" by (rule order_trans)
    then have l: "(2::real) powi (bitlen ?n - 1) \<le> x"
      using b1 by (simp add: power_int_def)
    have "?n + 1 \<le> 2 ^ nat (bitlen ?n)" using hi by simp
    then have "of_int (?n + 1) \<le> (2::real) ^ nat (bitlen ?n)"
      by (metis of_int_le_iff of_int_numeral of_int_power)
    moreover have "x < of_int (?n + 1)" by linarith
    ultimately have "x < (2::real) ^ nat (bitlen ?n)" by (rule less_le_trans [rotated])
    then have h: "x < (2::real) powi (bitlen ?n)"
      using b1 by (simp add: power_int_def)
    show ?thesis using True l h by (simp add: floor_log2_def)
  next
    case False
    let ?y = "1 / x"
    let ?n = "\<lceil>?y\<rceil> - 1"
    have y: "1 < ?y" using False assms by simp
    then have n: "0 < ?n" by linarith
    have ny: "of_int ?n < ?y" "?y \<le> of_int ?n + 1" by linarith+
    have b1: "1 \<le> bitlen ?n" using n by (simp add: bitlen_alt_def)
    from bitlen_bounds [OF n]
    have lo: "(2::int) ^ nat (bitlen ?n - 1) \<le> ?n" and hi: "?n < 2 ^ nat (bitlen ?n)" by simp_all
    have "(2::real) ^ nat (bitlen ?n - 1) \<le> of_int ?n"
      using lo by (metis of_int_le_iff of_int_numeral of_int_power)
    then have "(2::real) ^ nat (bitlen ?n - 1) < ?y" using ny(1) by (rule le_less_trans)
    then have l: "(2::real) powi (bitlen ?n - 1) < ?y"
      using b1 by (simp add: power_int_def)
    have "?n + 1 \<le> 2 ^ nat (bitlen ?n)" using hi by simp
    then have "of_int (?n + 1) \<le> (2::real) ^ nat (bitlen ?n)"
      by (metis of_int_le_iff of_int_numeral of_int_power)
    moreover have "?y \<le> of_int (?n + 1)" using ny(2) by simp
    ultimately have "?y \<le> (2::real) ^ nat (bitlen ?n)" by (rule order_trans [rotated])
    then have h: "?y \<le> (2::real) powi (bitlen ?n)"
      using b1 by (simp add: power_int_def)
    have "1 \<le> 2 powi (bitlen ?n) * x"
      using h assms by (simp add: pos_divide_le_eq)
    then have r1: "2 powi (- bitlen ?n) \<le> x"
      by (simp add: power_int_minus_divide pos_divide_le_eq mult.commute)
    have "2 powi (bitlen ?n - 1) * x < 1"
      using l assms by (simp add: pos_less_divide_eq)
    then have "x < 1 / 2 powi (bitlen ?n - 1)"
      by (simp add: pos_less_divide_eq mult.commute)
    then have r2: "x < 2 powi (- bitlen ?n + 1)"
      by (simp add: power_int_minus_divide [symmetric])
    show ?thesis using False r1 r2 by (simp add: floor_log2_def)
  qed
  then show "2 powi (floor_log2 x) \<le> x" and "x < 2 powi (floor_log2 x + 1)" by simp_all
qed

lemma floor_log2_unique:
  assumes "2 powi e \<le> x" and "x < 2 powi (e + 1)"
  shows "floor_log2 x = e"
proof -
  have x: "0 < x" using assms(1) powi_pos [of e] by linarith
  note b = floor_log2_bounds [OF x]
  have "\<not> floor_log2 x < e"
  proof
    assume "floor_log2 x < e"
    then have "2 powi (floor_log2 x + 1) \<le> (2::real) powi e" by (intro powi_mono) simp
    with b(2) assms(1) show False by linarith
  qed
  moreover have "\<not> e < floor_log2 x"
  proof
    assume "e < floor_log2 x"
    then have "2 powi (e + 1) \<le> (2::real) powi (floor_log2 x)" by (intro powi_mono) simp
    with b(1) assms(2) show False by linarith
  qed
  ultimately show ?thesis by linarith
qed

lemma py_round_of_int: "py_round (of_int k) = k"
  by (simp add: py_round_def)

lemma py_round_le_int: "x \<le> of_int n \<Longrightarrow> py_round x \<le> n"
proof -
  assume a: "x \<le> of_int n"
  have f: "\<lfloor>x\<rfloor> \<le> n" using a by (simp add: floor_le_iff) 
  show ?thesis
  proof (cases "x = of_int n")
    case True
    then show ?thesis by (simp add: py_round_of_int)
  next
    case False
    then have "x < of_int n" using a by simp
    then have "\<lfloor>x\<rfloor> < n" by (simp add: floor_less_iff)
    then show ?thesis by (auto simp: py_round_def Let_def)
  qed
qed

lemma py_round_nonneg: "0 \<le> x \<Longrightarrow> 0 \<le> py_round x"
proof -
  assume "0 \<le> x"
  then have "0 \<le> \<lfloor>x\<rfloor>" by simp
  then show ?thesis by (auto simp: py_round_def Let_def)
qed

lemma py_round_nonpos: "x \<le> 0 \<Longrightarrow> py_round x \<le> 0"
  using py_round_le_int [of x 0] by simp

lemma round_b64_eval:
  assumes "2 powi e \<le> \<bar>x\<bar>" and "\<bar>x\<bar> < 2 powi (e + 1)"
  shows "round_b64 x =
     (let u = 2 powi (max e (- 1022) - 52);
          y = of_int (py_round (x / u)) * u
      in if 2 ^ 1024 \<le> y then PosInf
         else if y \<le> - (2 ^ 1024) then NegInf
         else Finite y)"
proof -
  have "0 < \<bar>x\<bar>" using assms(1) powi_pos [of e] by linarith
  then have nz: "x \<noteq> 0" by simp
  have "floor_log2 \<bar>x\<bar> = e" using assms by (rule floor_log2_unique)
  then show ?thesis using nz by (simp add: round_b64_def)
qed

lemma exponent_below:
  assumes "0 < x" and "x < 2 powi k"
  shows "floor_log2 x < k"
proof (rule ccontr)
  assume "\<not> floor_log2 x < k"
  then have "(2::real) powi k \<le> 2 powi (floor_log2 x)" by (intro powi_mono) simp
  with floor_log2_bounds(1) [OF assms(1)] assms(2) show False by linarith
qed

lemma multiple_of_unit:
  assumes "d \<le> e"
  shows "of_int m * 2 powi e = of_int (m * 2 ^ nat (e - d)) * (2::real) powi d"
proof -
  have "(2::real) powi e = 2 powi (e - d) * 2 powi d"
    by (simp add: power_int_add [symmetric])
  moreover have "(2::real) powi (e - d) = 2 ^ nat (e - d)"
    using assms by (simp add: power_int_def)
  ultimately show ?thesis by simp
qed

lemma round_b64_dyadic:
  assumes "\<bar>m\<bar> < 2 ^ 53" and "- 1074 \<le> e" and "e \<le> 971"
  shows "round_b64 (of_int m * 2 powi e) = Finite (of_int m * 2 powi e)"
proof (cases "m = 0")
  case True
  then show ?thesis by (simp add: round_b64_def)
next
  case False
  let ?x = "of_int m * (2::real) powi e"
  let ?E = "floor_log2 \<bar>?x\<bar>"
  let ?d = "max ?E (- 1022) - 52"
  have nz: "?x \<noteq> 0" using False by simp
  then have pos: "0 < \<bar>?x\<bar>" by simp
  have am: "\<bar>of_int m :: real\<bar> < 2 ^ 53"
    using assms(1) by (metis of_int_abs of_int_less_iff of_int_numeral of_int_power)
  have "\<bar>?x\<bar> = \<bar>of_int m\<bar> * 2 powi e" by (simp add: abs_mult)
  also have "\<dots> < 2 ^ 53 * 2 powi e"
    using am by (intro mult_strict_right_mono) simp_all
  finally have ub: "\<bar>?x\<bar> < 2 powi (53 + e)" by (simp add: power_int_add)
  have "?E < 53 + e" using pos ub by (rule exponent_below)
  then have de: "?d \<le> e" using assms(2) by simp
  have mult: "?x = of_int (m * 2 ^ nat (e - ?d)) * 2 powi ?d"
    using de by (rule multiple_of_unit)
  have "?x / 2 powi ?d = of_int (m * 2 ^ nat (e - ?d))"
    by (subst mult) simp
  then have r: "of_int (py_round (?x / 2 powi ?d)) * 2 powi ?d = ?x"
    using mult by (simp only: py_round_of_int)
  have "(2::real) powi (53 + e) \<le> 2 powi 1024" using assms(3) by (intro powi_mono) simp
  then have "\<bar>?x\<bar> < 2 ^ 1024" using ub by simp
  then have "\<not> 2 ^ 1024 \<le> ?x" "\<not> ?x \<le> - (2 ^ 1024)" by linarith+
  then show ?thesis
    using nz r unfolding round_b64_def Let_def by (simp only: if_False)
qed

lemma round_b64_upper:
  assumes "0 < x" and "x \<le> c" and "is_double c"
  shows "\<exists>y. round_b64 x = Finite y \<and> 0 \<le> y \<and> y \<le> c"
proof -
  from assms(3) obtain m e where c: "c = of_int m * 2 powi e"
    and m: "\<bar>m\<bar> < 2 ^ 53" and e: "- 1074 \<le> e" "e \<le> 971"
    unfolding is_double_def by blast
  let ?E = "floor_log2 \<bar>x\<bar>"
  let ?d = "max ?E (- 1022) - 52"
  let ?u = "(2::real) powi ?d"
  let ?y = "of_int (py_round (x / ?u)) * ?u"
  have ax: "\<bar>x\<bar> = x" using assms(1) by simp
  have am: "\<bar>of_int m :: real\<bar> < 2 ^ 53"
    using m by (metis of_int_abs of_int_less_iff of_int_numeral of_int_power)
  have "c \<le> \<bar>of_int m\<bar> * 2 powi e" by (simp add: c mult_right_mono)
  also have "\<dots> < 2 ^ 53 * 2 powi e"
    using am by (intro mult_strict_right_mono) simp_all
  finally have cub: "c < 2 powi (53 + e)" by (simp add: power_int_add)
  have "x < 2 powi (53 + e)" using assms(2) cub by linarith
  then have "floor_log2 x < 53 + e" using assms(1) by (intro exponent_below)
  then have de: "?d \<le> e" using e(1) ax by simp
  have mult: "c = of_int (m * 2 ^ nat (e - ?d)) * ?u"
    unfolding c using de by (rule multiple_of_unit)
  have "x / ?u \<le> c / ?u" using assms(2) by (intro divide_right_mono) simp_all
  also have "c / ?u = of_int (m * 2 ^ nat (e - ?d))" by (subst mult) simp
  finally have "py_round (x / ?u) \<le> m * 2 ^ nat (e - ?d)" by (rule py_round_le_int)
  then have "(of_int (py_round (x / ?u)) :: real) \<le> of_int (m * 2 ^ nat (e - ?d))"
    by (simp only: of_int_le_iff)
  then have "?y \<le> of_int (m * 2 ^ nat (e - ?d)) * ?u"
    by (intro mult_right_mono) simp_all
  then have yc: "?y \<le> c" using mult by simp
  have "0 \<le> x / ?u" using assms(1) by simp
  then have "0 \<le> py_round (x / ?u)" by (rule py_round_nonneg)
  then have y0: "0 \<le> ?y" by simp
  have "(2::real) powi (53 + e) \<le> 2 powi 1024" using e(2) by (intro powi_mono) simp
  then have "c < 2 ^ 1024" using cub by simp
  then have "\<not> 2 ^ 1024 \<le> ?y" "\<not> ?y \<le> - (2 ^ 1024)" using yc y0 by linarith+
  then have "round_b64 x = Finite ?y"
    using assms(1) unfolding round_b64_def Let_def by simp
  then show ?thesis using y0 yc by blast
qed

lemma round_b64_nonneg:
  assumes "0 \<le> x"
  shows "round_b64 x = PosInf \<or> (\<exists>y. round_b64 x = Finite y \<and> 0 \<le> y)"
proof (cases "x = 0")
  case True
  then show ?thesis by (simp add: round_b64_def)
next
  case False
  let ?u = "(2::real) powi (max (floor_log2 \<bar>x\<bar>) (- 1022) - 52)"
  have "0 \<le> x / ?u" using assms by simp
  then have "0 \<le> py_round (x / ?u)" by (rule py_round_nonneg)
  then have "0 \<le> of_int (py_round (x / ?u)) * ?u" by simp
  then show ?thesis using False unfolding round_b64_def Let_def by auto
qed

lemma is_double_1: "is_double 1"
  unfolding is_double_def by (rule exI [of _ 1], rule exI [of _ 0]) simp

lemma round_b64_0: "round_b64 0 = Finite 0"
  by (simp add: round_b64_def)

lemma round_b64_1: "round_b64 1 = Finite 1"
  using round_b64_dyadic [of 1 0] by simp

lemma round_b64_quarter: "round_b64 (1 / 4) = Finite (1 / 4)"
  using round_b64_dyadic [of 1 "- 2"] by (simp add: power_int_minus_divide)

lemma literal_tenth: "round_b64 (1 / 10) = Finite (3602879701896397 / 2 ^ 55)"
  by (subst round_b64_eval [where e = "- 4"])
     (simp_all add: power_int_minus_divide py_round_def Let_def)

subsection \<open>Quantizing never fails on a finite quotient\<close>

text \<open>
  \<^verbatim>\<open>round(x) * quantization\<close> on a finite \<open>x\<close>: the int that \<^verbatim>\<open>round\<close> returns is itself a
  double, so its conversion cannot overflow. The expression raises only through the
  division before it, or through \<^verbatim>\<open>round\<close> when the quotient is not finite.
\<close>

lemma py_round_minus: "py_round (- x) = - py_round x"
proof (cases "x = of_int \<lfloor>x\<rfloor>")
  case True
  then obtain k where "x = of_int k" by blast
  then show ?thesis using py_round_of_int [of "- k"] by (simp add: py_round_of_int)
next
  case False
  then have fl: "\<lfloor>- x\<rfloor> = - \<lfloor>x\<rfloor> - 1"
    by (simp add: floor_minus ceiling_altdef)
  have "even (- \<lfloor>x\<rfloor> - 1) \<longleftrightarrow> odd \<lfloor>x\<rfloor>" by simp
  then show ?thesis
    unfolding py_round_def Let_def fl by (auto simp: algebra_simps)
qed

lemma py_round_abs_le_int:
  assumes "\<bar>x\<bar> \<le> of_int n"
  shows "\<bar>py_round x\<bar> \<le> n"
proof -
  have "py_round x \<le> n" using assms by (intro py_round_le_int) linarith
  moreover have "py_round (- x) \<le> n" using assms by (intro py_round_le_int) linarith
  ultimately show ?thesis by (simp add: py_round_minus)
qed

lemma powi_53: "(2::real) powi (53 + d) = 2 ^ 53 * 2 powi d"
  by (simp add: power_int_add)

lemma powi_52: "2 ^ 52 * (2::real) powi (e - 52) = 2 powi e"
  by (simp add: power_int_diff)

lemma round_b64_finite_parts:
  assumes "round_b64 x = Finite r" and "x \<noteq> 0"
  shows "\<exists>k d. r = of_int k * 2 powi d \<and> \<bar>k\<bar> \<le> 2 ^ 53 \<and> - 1074 \<le> d \<and> d \<le> 971
               \<and> \<bar>r\<bar> < 2 ^ 1024"
proof -
  define E where "E = floor_log2 \<bar>x\<bar>"
  define d where "d = max E (- 1022) - 52"
  define u where "u = (2::real) powi d"
  define k where "k = py_round (x / u)"
  have upos: "0 < u" by (simp add: u_def)
  have pos: "0 < \<bar>x\<bar>" using assms(2) by simp
  have "round_b64 x = (if 2 ^ 1024 \<le> of_int k * u then PosInf
           else if of_int k * u \<le> - (2 ^ 1024) then NegInf else Finite (of_int k * u))"
    using assms(2) unfolding round_b64_def Let_def k_def u_def d_def E_def by simp
  then have fin: "\<not> 2 ^ 1024 \<le> of_int k * u" "\<not> of_int k * u \<le> - (2 ^ 1024)"
    and r: "r = of_int k * u"
    using assms(1) by (auto split: if_splits)
  have rb: "\<bar>r\<bar> < 2 ^ 1024" using fin r by linarith
  have Ed: "E + 1 \<le> 53 + d" by (simp add: d_def)
  have "\<bar>x\<bar> < 2 powi (E + 1)" unfolding E_def using floor_log2_bounds(2) [OF pos] .
  also have "\<dots> \<le> 2 powi (53 + d)" using Ed by (rule powi_mono)
  also have "\<dots> = 2 ^ 53 * u" unfolding u_def by (rule powi_53)
  finally have "\<bar>x\<bar> / u < 2 ^ 53" using upos by (simp add: pos_divide_less_eq)
  then have "\<bar>x / u\<bar> \<le> of_int (2 ^ 53)" using upos by simp
  then have kb: "\<bar>k\<bar> \<le> 2 ^ 53" unfolding k_def by (rule py_round_abs_le_int)
  have dl: "- 1074 \<le> d" by (simp add: d_def)
  have du: "d \<le> 971"
  proof (rule ccontr)
    assume "\<not> d \<le> 971"
    then have E: "1024 \<le> E" by (simp add: d_def)
    then have dE: "d = E - 52" by (simp add: d_def)
    have "2 powi E \<le> \<bar>x\<bar>" unfolding E_def using floor_log2_bounds(1) [OF pos] .
    moreover have "2 ^ 52 * u = 2 powi E" unfolding u_def dE by (rule powi_52)
    ultimately have "2 ^ 52 * u \<le> \<bar>x\<bar>" by simp
    then have "2 ^ 52 \<le> \<bar>x\<bar> / u" using upos by (simp add: pos_le_divide_eq)
    then have "of_int (2 ^ 52) \<le> \<bar>x / u\<bar>" using upos by simp
    then have "of_int (2 ^ 52) \<le> x / u \<or> x / u \<le> of_int (- (2 ^ 52))" by linarith
    then have "2 ^ 52 \<le> \<bar>k\<bar>"
    proof
      assume "of_int (2 ^ 52) \<le> x / u"
      then have "- (x / u) \<le> of_int (- (2 ^ 52))" by simp
      then have "py_round (- (x / u)) \<le> - (2 ^ 52)" by (rule py_round_le_int)
      then show ?thesis by (simp add: py_round_minus k_def)
    next
      assume "x / u \<le> of_int (- (2 ^ 52))"
      then have "k \<le> - (2 ^ 52)" unfolding k_def by (rule py_round_le_int)
      then show ?thesis by simp
    qed
    then have "of_int (2 ^ 52) \<le> (of_int \<bar>k\<bar> :: real)" by (simp only: of_int_le_iff)
    then have "(2 ^ 52 :: real) \<le> \<bar>of_int k\<bar>" by simp
    then have "2 ^ 52 * u \<le> \<bar>of_int k\<bar> * u" using upos by (intro mult_right_mono) simp_all
    moreover have "2 ^ 52 * u = 2 powi E" unfolding u_def dE by (rule powi_52)
    moreover have "(2::real) powi 1024 \<le> 2 powi E" using E by (rule powi_mono)
    moreover have "\<bar>r\<bar> = \<bar>of_int k\<bar> * u" using upos by (simp add: r abs_mult)
    ultimately have "2 ^ 1024 \<le> \<bar>r\<bar>" by simp
    with rb show False by simp
  qed
  show ?thesis using r kb dl du rb unfolding u_def by blast
qed

lemma round_int_representable:
  assumes "round_b64 x = Finite r"
  shows "round_b64 (of_int (py_round r)) = Finite (of_int (py_round r))"
proof (cases "x = 0")
  case True
  then have "r = 0" using assms by (simp add: round_b64_def)
  then show ?thesis using py_round_of_int [of 0] by (simp add: round_b64_def)
next
  case False
  from round_b64_finite_parts [OF assms False] obtain k d where
    r: "r = of_int k * 2 powi d" and k: "\<bar>k\<bar> \<le> 2 ^ 53" and d: "- 1074 \<le> d" "d \<le> 971"
    and rb: "\<bar>r\<bar> < 2 ^ 1024" by blast
  have ak: "\<bar>of_int k :: real\<bar> \<le> 2 ^ 53"
    using k by (metis of_int_abs of_int_le_iff of_int_numeral of_int_power)
  show ?thesis
  proof (cases "0 \<le> d")
    case True
    have rint: "r = of_int (k * 2 ^ nat d)" using True by (simp add: r power_int_def)
    then have "py_round r = k * 2 ^ nat d" by (simp only: py_round_of_int)
    then have pr: "of_int (py_round r) = r" using rint by simp
    have goal: "round_b64 r = Finite r \<Longrightarrow> ?thesis" by (simp only: pr)
    show ?thesis
    proof (cases "\<bar>k\<bar> < 2 ^ 53")
      case True
      then have "round_b64 r = Finite r"
        unfolding r using d by (intro round_b64_dyadic)
      then show ?thesis by (rule goal)
    next
      case False
      then have k53: "\<bar>k\<bar> = 2 ^ 53" using k by simp
      then have "\<bar>of_int k :: real\<bar> = 2 ^ 53"
        by (metis of_int_abs of_int_numeral of_int_power)
      then have "\<bar>r\<bar> = 2 powi (53 + d)" by (simp add: r abs_mult powi_53)
      then have lt: "(2::real) powi (53 + d) < 2 powi 1024" using rb by simp
      have "53 + d < 1024"
      proof (rule ccontr)
        assume "\<not> 53 + d < 1024"
        then have "(2::real) powi 1024 \<le> 2 powi (53 + d)" by (intro powi_mono) simp
        with lt show False by simp
      qed
      then have d1: "d + 1 \<le> 971" by simp
      have kk: "k = 2 ^ 53 \<or> k = - (2 ^ 53)" using k53 by linarith
      have half: "\<bar>k div 2\<bar> < 2 ^ 53" using kk by auto
      have "k = (k div 2) * 2" using kk by auto
      then have "(of_int k :: real) = of_int ((k div 2) * 2)" by simp
      then have k2: "(of_int k :: real) = of_int (k div 2) * 2" by simp
      have "(2::real) powi (d + 1) = 2 powi d * 2" by (simp add: power_int_add)
      then have "of_int k * (2::real) powi d = of_int (k div 2) * 2 powi (d + 1)"
        using k2 by simp
      moreover have "round_b64 (of_int (k div 2) * 2 powi (d + 1))
                       = Finite (of_int (k div 2) * 2 powi (d + 1))"
        using half d d1 by (intro round_b64_dyadic) simp_all
      ultimately have "round_b64 r = Finite r" by (simp only: r)
      then show ?thesis by (rule goal)
    qed
  next
    case False
    then have "d \<le> - 1" by simp
    then have "(2::real) powi d \<le> 2 powi (- 1)" by (rule powi_mono)
    then have "\<bar>of_int k\<bar> * (2::real) powi d \<le> 2 ^ 53 * 2 powi (- 1)"
      using ak by (intro mult_mono) simp_all
    then have "\<bar>r\<bar> \<le> of_int (2 ^ 52)" by (simp add: r abs_mult)
    then have "\<bar>py_round r\<bar> \<le> 2 ^ 52" by (rule py_round_abs_le_int)
    then have "\<bar>py_round r\<bar> < 2 ^ 53" by simp
    then show ?thesis using round_b64_dyadic [of "py_round r" 0] by simp
  qed
qed

lemma float_div_finite_round:
  assumes "float_div a b = Inr (Finite r)"
  shows "float_of_int (py_round r) = Inr (Finite (of_int (py_round r)))"
proof -
  have "r = 0 \<or> (\<exists>x. round_b64 x = Finite r)"
    using assms by (cases a; cases b) (auto split: if_splits)
  then show ?thesis
  proof
    assume "r = 0"
    then show ?thesis
      using py_round_of_int [of 0] by (simp add: float_of_int_def round_b64_def)
  next
    assume "\<exists>x. round_b64 x = Finite r"
    then obtain x where "round_b64 x = Finite r" by blast
    then show ?thesis by (simp add: float_of_int_def round_int_representable)
  qed
qed

lemma quantize_chain_succeeds:
  "(\<exists>v. (case float_div a b of
           Inl e \<Rightarrow> Inl e
         | Inr ratio \<Rightarrow>
             (case float_round ratio of
                Inl e \<Rightarrow> Inl e
              | Inr k \<Rightarrow>
                  (case float_of_int k of
                     Inl e \<Rightarrow> Inl e
                   | Inr kf \<Rightarrow> Inr (f kf)))) = Inr v)
     \<longleftrightarrow> (\<exists>r. float_div a b = Inr (Finite r))"
proof (cases "float_div a b")
  case (Inl e)
  then show ?thesis by simp
next
  case (Inr ratio)
  show ?thesis
  proof (cases ratio)
    case (Finite r)
    have "float_of_int (py_round r) = Inr (Finite (of_int (py_round r)))"
      using Inr Finite by (intro float_div_finite_round [of a b]) simp
    then show ?thesis by (simp add: Inr Finite)
  qed (simp_all add: Inr)
qed

lemma quantized_ioi_f64_succeeds:
  "(\<exists>v. quantized_ioi_f64 note_events quantization i = Inr v)
     \<longleftrightarrow> (\<exists>r. float_div (float_sub (start_f64 (note_events ! i))
                               (start_f64 (note_events ! (i - 1)))) quantization
               = Inr (Finite r))"
  unfolding quantized_ioi_f64_def by (rule quantize_chain_succeeds)

subsection \<open>Symmetry, bounds and the remainder\<close>

lemma round_b64_minus: "round_b64 (- x) = float_neg (round_b64 x)"
proof (cases "x = 0")
  case True
  then show ?thesis by (simp add: round_b64_def)
next
  case False
  define u where "u = (2::real) powi (max (floor_log2 \<bar>x\<bar>) (- 1022) - 52)"
  define y where "y = of_int (py_round (x / u)) * u"
  have "of_int (py_round (- x / u)) * u = - y"
    using py_round_minus [of "x / u"] by (simp add: y_def)
  then have l: "round_b64 (- x) = (if 2 ^ 1024 \<le> - y then PosInf
        else if - y \<le> - (2 ^ 1024) then NegInf else Finite (- y))"
    using False unfolding round_b64_def Let_def u_def by simp
  have r: "round_b64 x = (if 2 ^ 1024 \<le> y then PosInf
        else if y \<le> - (2 ^ 1024) then NegInf else Finite y)"
    using False unfolding round_b64_def Let_def u_def y_def by simp
  have "(2::real) ^ 1024 > 0" by simp
  then show ?thesis unfolding l r by auto
qed

lemma is_double_minus: "is_double c \<Longrightarrow> is_double (- c)"
proof -
  assume "is_double c"
  then obtain m e where "c = of_int m * 2 powi e" "\<bar>m\<bar> < 2 ^ 53" "- 1074 \<le> e" "e \<le> 971"
    unfolding is_double_def by blast
  then have "- c = of_int (- m) * 2 powi e \<and> \<bar>- m\<bar> < 2 ^ 53 \<and> - 1074 \<le> e \<and> e \<le> 971"
    by simp
  then show ?thesis unfolding is_double_def by blast
qed

lemma round_b64_lower:
  assumes "x < 0" and "c \<le> x" and "is_double c"
  shows "\<exists>y. round_b64 x = Finite y \<and> c \<le> y \<and> y \<le> 0"
proof -
  have "\<exists>y. round_b64 (- x) = Finite y \<and> 0 \<le> y \<and> y \<le> - c"
    using assms by (intro round_b64_upper is_double_minus) simp_all
  then obtain y where y: "round_b64 (- x) = Finite y" "0 \<le> y" "y \<le> - c" by blast
  have "round_b64 x = float_neg (round_b64 (- x))"
    using round_b64_minus [of "- x"] by simp
  then have "round_b64 x = Finite (- y)" using y(1) by simp
  then show ?thesis using y(2,3) by auto
qed

lemma round_b64_nonpos:
  assumes "x \<le> 0"
  shows "round_b64 x = NegInf \<or> (\<exists>y. round_b64 x = Finite y \<and> y \<le> 0)"
proof -
  have "round_b64 x = float_neg (round_b64 (- x))"
    using round_b64_minus [of "- x"] by simp
  moreover have "round_b64 (- x) = PosInf \<or> (\<exists>y. round_b64 (- x) = Finite y \<and> 0 \<le> y)"
    using assms by (intro round_b64_nonneg) simp
  ultimately show ?thesis by auto
qed

lemma round_b64_unit_interval:
  assumes "0 \<le> x" and "x \<le> c" and "is_double c"
  shows "\<exists>y. round_b64 x = Finite y \<and> 0 \<le> y \<and> y \<le> c"
proof (cases "x = 0")
  case True
  then show ?thesis using assms by (simp add: round_b64_def)
next
  case False
  then show ?thesis using assms by (intro round_b64_upper) simp_all
qed

lemma c_trunc_near: "\<bar>q - of_int (c_trunc q)\<bar> < 1"
  unfolding c_trunc_def by (cases "0 \<le> q") (simp; linarith)+

lemma c_trunc_sign:
  "0 \<le> q \<Longrightarrow> 0 \<le> q - of_int (c_trunc q)"
  "q \<le> 0 \<Longrightarrow> q - of_int (c_trunc q) \<le> 0"
  unfolding c_trunc_def by (simp; linarith)+

lemma fmod_bound:
  assumes "b \<noteq> 0"
  shows "\<bar>x - b * of_int (c_trunc (x / b))\<bar> < \<bar>b\<bar>"
proof -
  have "x - b * of_int (c_trunc (x / b)) = b * (x / b - of_int (c_trunc (x / b)))"
    using assms by (simp add: algebra_simps)
  then have "\<bar>x - b * of_int (c_trunc (x / b))\<bar> = \<bar>b\<bar> * \<bar>x / b - of_int (c_trunc (x / b))\<bar>"
    by (simp add: abs_mult)
  also have "\<dots> < \<bar>b\<bar> * 1"
    using assms c_trunc_near [of "x / b"] by (intro mult_strict_left_mono) simp_all
  finally show ?thesis by simp
qed

lemma float_rem_finite:
  assumes "is_double b" and "b \<noteq> 0"
  shows "\<exists>p. float_rem (Finite s) (Finite b) = Inr (Finite p) \<and> \<bar>p\<bar> \<le> \<bar>b\<bar>"
proof -
  define m where "m = s - b * of_int (c_trunc (s / b))"
  have mb: "\<bar>m\<bar> < \<bar>b\<bar>" unfolding m_def using assms(2) by (rule fmod_bound)
  have fm: "c_fmod (Finite s) (Finite b) = Finite m" by (simp add: m_def)
  show ?thesis
  proof (cases "m = 0")
    case True
    then show ?thesis using assms(2) fm by (simp add: float_rem_def)
  next
    case False
    show ?thesis
    proof (cases "(b < 0) \<noteq> (m < 0)")
      case same: False
      then show ?thesis
        using assms(2) fm False mb by (simp add: float_rem_def Let_def)
    next
      case True
      have res: "float_rem (Finite s) (Finite b) = Inr (round_b64 (m + b))"
        using assms(2) fm False True by (simp add: float_rem_def Let_def)
      show ?thesis
      proof (cases "b < 0")
        case True
        then have "0 < m" using \<open>(b < 0) \<noteq> (m < 0)\<close> False by simp
        then have "m + b < 0" "b \<le> m + b" using mb True by simp_all
        then obtain y where "round_b64 (m + b) = Finite y" "b \<le> y" "y \<le> 0"
          using round_b64_lower [OF _ _ assms(1)] by blast
        then show ?thesis using res True by auto
      next
        case False
        then have b: "0 < b" using assms(2) by simp
        then have "m < 0" using \<open>(b < 0) \<noteq> (m < 0)\<close> by simp
        then have "0 < m + b" "m + b \<le> b" using mb b by simp_all
        then obtain y where "round_b64 (m + b) = Finite y" "0 \<le> y" "y \<le> b"
          using round_b64_upper [OF _ _ assms(1)] by blast
        then show ?thesis using res b by auto
      qed
    qed
  qed
qed

lemma float_literal_1: "float_literal 1 = Finite 1"
  by (simp add: float_literal_def round_b64_1)

lemma float_rem_one:
  "\<exists>f. float_rem (Finite p) (float_literal 1) = Inr (Finite f) \<and> 0 \<le> f \<and> f \<le> 1"
proof -
  define m where "m = p - of_int (c_trunc p)"
  have mb: "\<bar>m\<bar> < 1" unfolding m_def by (rule c_trunc_near)
  have fm: "c_fmod (Finite p) (Finite 1) = Finite m" by (simp add: m_def)
  show ?thesis
  proof (cases "m = 0")
    case True
    then show ?thesis using fm by (simp add: float_rem_def float_literal_1)
  next
    case False
    show ?thesis
    proof (cases "m < 0")
      case True
      have res: "float_rem (Finite p) (float_literal 1) = Inr (round_b64 (m + 1))"
        using fm False True by (simp add: float_rem_def Let_def float_literal_1)
      have "0 < m + 1" "m + 1 \<le> 1" using mb True by simp_all
      then obtain y where "round_b64 (m + 1) = Finite y" "0 \<le> y" "y \<le> 1"
        using round_b64_upper [OF _ _ is_double_1] by blast
      then show ?thesis using res by auto
    next
      case nonneg: False
      then show ?thesis
        using fm False mb by (simp add: float_rem_def Let_def float_literal_1)
    qed
  qed
qed

lemma round_b64_int: "\<bar>k\<bar> < 2 ^ 53 \<Longrightarrow> round_b64 (of_int k) = Finite (of_int k)"
  using round_b64_dyadic [of k 0] by simp

lemma round_b64_numeral:
  "numeral n < (2 ^ 53 :: int) \<Longrightarrow> round_b64 (numeral n) = Finite (numeral n)"
  using round_b64_int [of "numeral n"] by simp

lemma round_b64_neg_numeral:
  "numeral n < (2 ^ 53 :: int) \<Longrightarrow> round_b64 (- numeral n) = Finite (- numeral n)"
  using round_b64_int [of "- numeral n"] by simp

lemma round_b64_minus_1: "round_b64 (- 1) = Finite (- 1)"
  using round_b64_int [of "- 1"] by simp

lemma round_b64_half: "round_b64 (1 / 2) = Finite (1 / 2)"
  using round_b64_dyadic [of 1 "- 1"] by simp

lemma round_b64_values:
  "round_b64 (3 / 2) = Finite (3 / 2)"
  "round_b64 (- (3 / 2)) = Finite (- (3 / 2))"
  "round_b64 (- (1 / 8)) = Finite (- (1 / 8))"
  "round_b64 (3 / 8) = Finite (3 / 8)"
  "round_b64 (- (1 / 36028797018963968)) = Finite (- (1 / 36028797018963968))"
  using round_b64_dyadic [of 3 "- 1"] round_b64_dyadic [of "- 3" "- 1"]
    round_b64_dyadic [of "- 1" "- 3"] round_b64_dyadic [of 3 "- 3"]
    round_b64_dyadic [of "- 1" "- 55"]
  by (simp_all add: power_int_minus_divide)

lemma round_b64_below_one:
  "round_b64 (36028797018963967 / 36028797018963968) = Finite 1"
  by (subst round_b64_eval [where e = "- 1"])
     (simp_all add: power_int_minus_divide py_round_def Let_def)

lemma round_b64_overflow:
  assumes "2 ^ 1024 \<le> x"
  shows "round_b64 x = PosInf"
proof -
  have pos: "0 < x" using assms by (rule less_le_trans [rotated]) simp
  from round_b64_nonneg [of x] pos consider "round_b64 x = PosInf"
    | y where "round_b64 x = Finite y" by auto
  then show ?thesis
  proof cases
    case 1
    then show ?thesis .
  next
    case 2
    have nz: "x \<noteq> 0" using pos by simp
    define E where "E = floor_log2 \<bar>x\<bar>"
    define u where "u = (2::real) powi (max E (- 1022) - 52)"
    have upos: "0 < u" by (simp add: u_def)
    have "x < 2 powi (E + 1)" using floor_log2_bounds(2) [of "\<bar>x\<bar>"] pos by (simp add: E_def)
    then have "(2::real) powi 1024 < 2 powi (E + 1)" using assms by simp
    then have lt: "(2::real) powi 1024 < 2 powi (E + 1)" .
    have E: "1024 \<le> E"
    proof (rule ccontr)
      assume "\<not> 1024 \<le> E"
      then have "(2::real) powi (E + 1) \<le> 2 powi 1024" by (intro powi_mono) simp
      with lt show False by simp
    qed
    then have "max E (- 1022) - 52 = E - 52" by simp
    then have "u = 2 powi (E - 52)" by (simp only: u_def)
    then have u: "2 ^ 52 * u = 2 powi E" by (simp only: powi_52)
    have "2 powi E \<le> x" using floor_log2_bounds(1) [of "\<bar>x\<bar>"] pos by (simp add: E_def)
    then have "of_int (2 ^ 52) \<le> x / u" using u upos by (simp add: pos_le_divide_eq)
    then have "- (x / u) \<le> of_int (- (2 ^ 52))" by simp
    then have "py_round (- (x / u)) \<le> - (2 ^ 52)" by (rule py_round_le_int)
    then have "2 ^ 52 \<le> py_round (x / u)" by (simp add: py_round_minus)
    then have "of_int (2 ^ 52) \<le> (of_int (py_round (x / u)) :: real)" by (simp only: of_int_le_iff)
    then have "2 ^ 52 * u \<le> of_int (py_round (x / u)) * u"
      using upos by (intro mult_right_mono) simp_all
    moreover have "(2::real) powi 1024 \<le> 2 powi E" using E by (rule powi_mono)
    ultimately have "2 ^ 1024 \<le> of_int (py_round (x / u)) * u" using u by simp
    then show ?thesis using nz unfolding round_b64_def Let_def u_def E_def by simp
  qed
qed

lemma tiny_quotient_overflows: "round_b64 (1 / 2 powi (- 1074)) = PosInf"
proof -
  have "(1::real) / 2 powi (- 1074) = 2 ^ 1074" by (simp add: power_int_minus_divide)
  moreover have "(2::real) ^ 1024 \<le> 2 ^ 1074" by (rule power_increasing) simp_all
  ultimately show ?thesis by (simp only: round_b64_overflow)
qed

lemma tiny_divisor:
  "float_div (Finite 1) (Finite (2 powi (- 1074))) = Inr PosInf"
  "float_div (Finite (- 1)) (Finite (- (2 powi (- 1074)))) = Inr PosInf"
proof -
  have ne: "(2::real) powi (- 1074) \<noteq> 0" by simp
  show "float_div (Finite 1) (Finite (2 powi (- 1074))) = Inr PosInf"
    by (simp only: float_div.simps ne if_False pyfloat.case tiny_quotient_overflows)
  have ne': "- ((2::real) powi (- 1074)) \<noteq> 0" by simp
  have "(- 1 :: real) / - (2 powi (- 1074)) = 1 / 2 powi (- 1074)" by simp
  then show "float_div (Finite (- 1)) (Finite (- (2 powi (- 1074)))) = Inr PosInf"
    by (simp only: float_div.simps ne' if_False pyfloat.case tiny_quotient_overflows)
qed

subsection \<open>Literals of the source\<close>

lemma float_literal_127: "float_literal 127 = Finite 127"
  using round_b64_int [of 127] by (simp add: float_literal_def)

lemma float_literal_half: "float_literal (1 / 2) = Finite (1 / 2)"
  using round_b64_dyadic [of 1 "- 1"] by (simp add: float_literal_def)

lemma float_literal_tenth: "float_literal (1 / 10) = Finite (3602879701896397 / 2 ^ 55)"
  by (simp only: float_literal_def literal_tenth)

lemma float_literal_nine_tenths:
  "float_literal (9 / 10) = Finite (8106479329266893 / 2 ^ 53)"
  unfolding float_literal_def
  by (subst round_b64_eval [where e = "- 1"])
     (simp_all add: power_int_minus_divide py_round_def Let_def)

lemma is_double_nine_tenths: "is_double (8106479329266893 / 2 ^ 53)"
  unfolding is_double_def
  by (rule exI [of _ 8106479329266893], rule exI [of _ "- 53"])
     (simp add: power_int_minus_divide)

lemma is_double_4: "is_double 4"
  unfolding is_double_def by (rule exI [of _ 4], rule exI [of _ 0]) simp

lemma is_double_tenth: "is_double (- (3602879701896397 / 2 ^ 55))"
  unfolding is_double_def
  by (rule exI [of _ "- 3602879701896397"], rule exI [of _ "- 55"])
     (simp add: power_int_minus_divide)

lemma ceiling_tiny: "\<lceil>- (1 / 36028797018963968 :: real)\<rceil> = 0"
  by (simp add: ceiling_eq_iff)





section \<open>The pattern finder in binary64\<close>

subsection \<open>The loop records the 4-grams of the quantized intervals\<close>

lemma pattern_loop_f64_ok:
  assumes "map (quantized_ioi_f64 notes q) js = map Inr vs" and "length cur \<le> 3"
  shows "pattern_loop_f64 notes q js cur pats = Inr (fold incr_f64 (four_grams (cur @ vs)) pats)"
  using assms
proof (induction js arbitrary: vs cur pats)
  case Nil
  then show ?case by (simp add: four_grams_short)
next
  case (Cons i rest)
  from Cons.prems(1) obtain v vs' where vs: "vs = v # vs'"
    and v: "quantized_ioi_f64 notes q i = Inr v"
    and rest: "map (quantized_ioi_f64 notes q) rest = map Inr vs'"
    by (cases vs) auto
  let ?c1 = "cur @ [v]"
  show ?case
  proof (cases "length ?c1 = 4")
    case True
    have ys: "4 \<le> length (?c1 @ vs')" using True by simp
    have ne: "cur \<noteq> []" using True by auto
    have "tl (?c1 @ vs') = drop 1 ?c1 @ vs'"
      using ne by (cases cur) simp_all
    then have "four_grams (?c1 @ vs') = ?c1 # four_grams (drop 1 ?c1 @ vs')"
      using True four_grams_step [OF ys] by simp
    moreover have "length (drop 1 ?c1) \<le> 3" using True by simp
    ultimately show ?thesis
      using True v Cons.IH [OF rest, of "drop 1 ?c1" "incr_f64 ?c1 pats"]
      by (simp add: vs Let_def)
  next
    case False
    then have "length ?c1 \<le> 3" using Cons.prems(2) by simp
    then show ?thesis
      using False v Cons.IH [OF rest, of ?c1 pats] by (simp add: vs Let_def)
  qed
qed

lemma pattern_loop_f64_fail:
  assumes "\<exists>i \<in> set js. \<exists>e. quantized_ioi_f64 notes q i = Inl e"
  shows "\<exists>e. pattern_loop_f64 notes q js cur pats = Inl e"
  using assms
proof (induction js arbitrary: cur pats)
  case Nil
  then show ?case by simp
next
  case (Cons i rest)
  show ?case
  proof (cases "quantized_ioi_f64 notes q i")
    case (Inl e)
    then show ?thesis by simp
  next
    case (Inr v)
    then have "\<exists>j \<in> set rest. \<exists>e. quantized_ioi_f64 notes q j = Inl e"
      using Cons.prems by auto
    then show ?thesis
      using Inr Cons.IH by (simp add: Let_def)
  qed
qed

lemma all_Inr_map:
  assumes "\<forall>i \<in> set js. \<exists>v. f i = Inr v"
  shows "\<exists>vs. map f js = map Inr vs"
  using assms
proof (induction js)
  case Nil
  then show ?case by simp
next
  case (Cons i rest)
  then obtain v vs where "f i = Inr v" "map f rest = map Inr vs" by auto
  then have "map f (i # rest) = map Inr (v # vs)" by simp
  then show ?case by blast
qed

lemma sum_incr_f64: "sum_list (map snd (incr_f64 k h)) = sum_list (map snd h) + 1"
  by (induction h) auto

lemma sum_fold_incr_f64:
  "sum_list (map snd (fold incr_f64 ks h)) = sum_list (map snd h) + int (length ks)"
  by (induction ks arbitrary: h) (simp_all add: sum_incr_f64)

lemma keys_incr_f64:
  "map fst (incr_f64 k h)
     = (if k \<in> set (map fst h) \<and> NaN \<notin> set k then map fst h else map fst h @ [k])"
  by (induction h) force+

lemma set_keys_incr_f64: "set (map fst (incr_f64 k h)) = insert k (set (map fst h))"
  by (auto simp add: keys_incr_f64 simp del: set_map)

lemma set_keys_fold_incr_f64:
  "set (map fst (fold incr_f64 ks h)) = set ks \<union> set (map fst h)"
  by (induction ks arbitrary: h) (auto simp add: set_keys_incr_f64 simp del: set_map)

lemma distinct_incr_f64:
  "NaN \<notin> set k \<Longrightarrow> distinct (map fst h) \<Longrightarrow> distinct (map fst (incr_f64 k h))"
  by (auto simp add: keys_incr_f64 simp del: set_map)

lemma distinct_fold_incr_f64:
  "\<forall>k \<in> set ks. NaN \<notin> set k \<Longrightarrow> distinct (map fst h)
     \<Longrightarrow> distinct (map fst (fold incr_f64 ks h))"
  by (induction ks arbitrary: h) (simp_all add: distinct_incr_f64)

lemma lookup_incr_f64:
  "NaN \<notin> set k \<Longrightarrow>
     lookup_count_f64 (incr_f64 k h) k' = lookup_count_f64 h k' + (if k' = k then 1 else 0)"
  by (induction h) (auto simp: lookup_count_f64_def)

lemma lookup_fold_incr_f64:
  "\<forall>k \<in> set ks. NaN \<notin> set k \<Longrightarrow>
     lookup_count_f64 (fold incr_f64 ks h) k = lookup_count_f64 h k + int (count_list ks k)"
  by (induction ks arbitrary: h) (auto simp: lookup_incr_f64)

lemma lookup_empty_f64: "lookup_count_f64 [] k = 0"
  by (simp add: lookup_count_f64_def)

lemma four_grams_subset: "g \<in> set (four_grams ys) \<Longrightarrow> set g \<subseteq> set ys"
  by (auto simp: four_grams_def dest: in_set_takeD in_set_dropD)

lemma find_rhythm_patterns_f64_ok:
  assumes "map (quantized_ioi_f64 notes q) [1..<length notes] = map Inr iois"
  shows "find_rhythm_patterns_f64 notes q = Inr (fold incr_f64 (four_grams iois) [])"
  using pattern_loop_f64_ok [OF assms, of "[]" "[]"] by (simp add: find_rhythm_patterns_f64_def)

lemma find_rhythm_patterns_f64_fail:
  assumes "\<exists>i \<in> set [1..<length notes]. \<exists>e. quantized_ioi_f64 notes q i = Inl e"
  shows "\<exists>e. find_rhythm_patterns_f64 notes q = Inl e"
  unfolding find_rhythm_patterns_f64_def using assms by (rule pattern_loop_f64_fail)

lemma find_rhythm_patterns_f64_total:
  "((\<exists>patterns. find_rhythm_patterns_f64 note_events quantization = Inr patterns)
      \<longleftrightarrow> (\<forall>i \<in> set [1..<length note_events].
             \<exists>v. quantized_ioi_f64 note_events quantization i = Inr v))
   \<and> (\<forall>patterns. find_rhythm_patterns_f64 note_events quantization = Inr patterns
         \<longrightarrow> sum_list (map snd patterns) = max 0 (int (length note_events) - 4))"
proof (cases "\<forall>i \<in> set [1..<length note_events].
             \<exists>v. quantized_ioi_f64 note_events quantization i = Inr v")
  case True
  then obtain iois where
    iois: "map (quantized_ioi_f64 note_events quantization) [1..<length note_events] = map Inr iois"
    using all_Inr_map by blast
  have "length iois = length note_events - 1"
    using arg_cong [OF iois, of length] by simp
  then have len: "length (four_grams iois) = length note_events - 4"
    by (simp add: length_four_grams)
  have "sum_list (map snd (fold incr_f64 (four_grams iois) []))
          = max 0 (int (length note_events) - 4)"
    using len by (simp add: sum_fold_incr_f64)
  then show ?thesis
    using True find_rhythm_patterns_f64_ok [OF iois] by simp
next
  case False
  then have "\<exists>i \<in> set [1..<length note_events].
      \<exists>e. quantized_ioi_f64 note_events quantization i = Inl e"
    by (metis sum.exhaust)
  then obtain e where "find_rhythm_patterns_f64 note_events quantization = Inl e"
    using find_rhythm_patterns_f64_fail by blast
  then show ?thesis using False by simp
qed

lemma find_rhythm_patterns_f64_returns:
  "(\<exists>h. find_rhythm_patterns_f64 note_events quantization = Inr h)
     \<longleftrightarrow> (\<forall>i \<in> set [1..<length note_events].
            \<exists>r. float_div (float_sub (start_f64 (note_events ! i))
                                      (start_f64 (note_events ! (i - 1)))) quantization
                  = Inr (Finite r))"
  using find_rhythm_patterns_f64_total [of note_events quantization]
  by (simp only: quantized_ioi_f64_succeeds)

lemma all_quotients_finite:
  assumes "map (quantized_ioi_f64 ns q) js = map Inr vs"
  shows "\<forall>i \<in> set js. \<exists>r. float_div (float_sub (start_f64 (ns ! i)) (start_f64 (ns ! (i - 1)))) q
                             = Inr (Finite r)"
proof
  fix i assume "i \<in> set js"
  then have "quantized_ioi_f64 ns q i \<in> set (map (quantized_ioi_f64 ns q) js)" by simp
  then have "quantized_ioi_f64 ns q i \<in> set (map Inr vs)" by (simp only: assms)
  then have "\<exists>v. quantized_ioi_f64 ns q i = Inr v" by auto
  then show "\<exists>r. float_div (float_sub (start_f64 (ns ! i)) (start_f64 (ns ! (i - 1)))) q
               = Inr (Finite r)"
    by (simp only: quantized_ioi_f64_succeeds)
qed

lemmas eval_simps =
  quantized_ioi_f64_def float_sub_def float_of_int_def py_round_def Let_def
  round_b64_0 round_b64_1 round_b64_minus_1 round_b64_numeral round_b64_neg_numeral
  make_note_f64_def find_rhythm_patterns_f64_def upt_conv_Cons float_le_def

lemma overflow_run_sorted:
  assumes "float_div (Finite 1) q = Inr PosInf"
  shows "find_rhythm_patterns_f64
        (map (\<lambda>s. make_note_f64 (Finite s) (Finite (s + 1)) 60 100 0) [0, 1, 2, 3, 4]) q
       = Inl OverflowError"
  by (simp add: eval_simps assms)

lemma overflow_run_unsorted:
  assumes "float_div (Finite (- 1)) q = Inr PosInf"
  shows "find_rhythm_patterns_f64
        [make_note_f64 (Finite 1) (Finite 2) 60 100 0, make_note_f64 (Finite 0) (Finite 1) 60 100 0] q
       = Inl OverflowError"
  by (simp add: eval_simps assms)

subsection \<open>Sorted notes\<close>

text \<open>
  Claim C1, where it fails. The claim covers every quantization \<open>> 0\<close>. Take five notes
  one second apart, sorted, and the smallest positive float, \<open>2^-1074\<close> (about
  \<^verbatim>\<open>5e-324\<close>), as the quantization: the quotient \<^verbatim>\<open>1.0 / 5e-324\<close> overflows to \<^verbatim>\<open>inf\<close>,
  \<^verbatim>\<open>round\<close> raises \<^verbatim>\<open>OverflowError\<close>, and no histogram is returned.
\<close>

theorem pattern_finder_overflow:
  "sorted_wrt (\<lambda>a b. float_le (start_f64 a) (start_f64 b))
     (map (\<lambda>s. make_note_f64 (Finite s) (Finite (s + 1)) 60 100 0) [0, 1, 2, 3, 4])
   \<and> float_lt (Finite 0) (Finite (2 powi (- 1074)))
   \<and> find_rhythm_patterns_f64
        (map (\<lambda>s. make_note_f64 (Finite s) (Finite (s + 1)) 60 100 0) [0, 1, 2, 3, 4])
        (Finite (2 powi (- 1074))) = Inl OverflowError"
proof -
  let ?ns = "map (\<lambda>s. make_note_f64 (Finite s) (Finite (s + 1)) 60 100 0) [0, 1, 2, 3, 4]"
  have srt: "sorted_wrt (\<lambda>a b. float_le (start_f64 a) (start_f64 b)) ?ns"
    by (simp add: make_note_f64_def float_le_def)
  have pos: "float_lt (Finite 0) (Finite (2 powi (- 1074)))"
    by (simp only: float_lt.simps powi_pos)
  have run: "find_rhythm_patterns_f64 ?ns (Finite (2 powi (- 1074))) = Inl OverflowError"
    using tiny_divisor(1) by (rule overflow_run_sorted)
  show ?thesis by (intro conjI srt pos run)
qed

text \<open>
  Claim C1, amended. Let the notes be sorted by start (\<^verbatim>\<open><=\<close> on floats) and the
  quantization be \<open>> 0\<close>, and let every quotient
  \<^verbatim>\<open>(note_events[i]['start'] - note_events[i-1]['start']) / quantization\<close> be a finite float.
  Then the pattern finder quantizes the \<open>N - 1\<close> intervals without failing and returns a
  histogram; the intervals have \<open>N - 4\<close> overlapping 4-grams (none below \<open>N = 5\<close>), the keys
  of the histogram are exactly these 4-grams, and its counts add up to \<open>max(0, N - 4)\<close>.
  When no quantized interval is \<^verbatim>\<open>nan\<close>, the keys are distinct and the count of a key is
  the number of times it occurs among the 4-grams. With fewer than 5 notes the histogram
  is empty.
\<close>

theorem pattern_histogram_size_f64:
  assumes "sorted_wrt (\<lambda>a b. float_le (start_f64 a) (start_f64 b)) note_events"
    and "float_lt (Finite 0) quantization"
    and "\<forall>i \<in> set [1..<length note_events].
           \<exists>r. float_div (float_sub (start_f64 (note_events ! i))
                                     (start_f64 (note_events ! (i - 1)))) quantization
                 = Inr (Finite r)"
  shows "\<exists>iois patterns.
       map (quantized_ioi_f64 note_events quantization) [1..<length note_events] = map Inr iois
     \<and> find_rhythm_patterns_f64 note_events quantization = Inr patterns
     \<and> length (four_grams iois) = length note_events - 4
     \<and> set (map fst patterns) = set (four_grams iois)
     \<and> sum_list (map snd patterns) = max 0 (int (length note_events) - 4)
     \<and> (NaN \<notin> set iois \<longrightarrow>
           distinct (map fst patterns)
           \<and> (\<forall>k. lookup_count_f64 patterns k = int (count_list (four_grams iois) k)))
     \<and> (length note_events < 5 \<longrightarrow> patterns = [])"
proof -
  have "\<forall>i \<in> set [1..<length note_events].
          \<exists>v. quantized_ioi_f64 note_events quantization i = Inr v"
    using assms(3) by (simp only: quantized_ioi_f64_succeeds)
  then obtain iois where
    iois: "map (quantized_ioi_f64 note_events quantization) [1..<length note_events] = map Inr iois"
    using all_Inr_map by blast
  let ?gs = "four_grams iois"
  let ?h = "fold incr_f64 ?gs []"
  have "length iois = length note_events - 1"
    using arg_cong [OF iois, of length] by simp
  then have len: "length ?gs = length note_events - 4"
    by (simp add: length_four_grams)
  have run: "find_rhythm_patterns_f64 note_events quantization = Inr ?h"
    using iois by (rule find_rhythm_patterns_f64_ok)
  have keys: "set (map fst ?h) = set ?gs"
    by (simp add: set_keys_fold_incr_f64 del: set_map)
  have total: "sum_list (map snd ?h) = max 0 (int (length note_events) - 4)"
    using len by (simp add: sum_fold_incr_f64)
  have counts: "NaN \<notin> set iois \<longrightarrow>
      distinct (map fst ?h) \<and> (\<forall>k. lookup_count_f64 ?h k = int (count_list ?gs k))"
  proof
    assume nan: "NaN \<notin> set iois"
    have free: "\<forall>g \<in> set ?gs. NaN \<notin> set g"
      using nan four_grams_subset [of _ iois] by blast
    show "distinct (map fst ?h) \<and> (\<forall>k. lookup_count_f64 ?h k = int (count_list ?gs k))"
      using free by (simp add: distinct_fold_incr_f64 lookup_fold_incr_f64 lookup_empty_f64)
  qed
  have few: "length note_events < 5 \<longrightarrow> ?h = []"
    using len by auto
  show ?thesis
    by (rule exI [of _ iois], rule exI [of _ ?h]) (intro conjI iois run len keys total counts few)
qed

theorem pattern_histogram_size_f64_witness:
  "sorted_wrt (\<lambda>a b. float_le (start_f64 a) (start_f64 b))
     (map (\<lambda>s. make_note_f64 (Finite s) (Finite (s + 1)) 60 100 0) [0, 1, 2, 3, 4])
   \<and> float_lt (Finite 0) (Finite 1)
   \<and> map (quantized_ioi_f64
            (map (\<lambda>s. make_note_f64 (Finite s) (Finite (s + 1)) 60 100 0) [0, 1, 2, 3, 4])
            (Finite 1)) [1..<5]
       = map Inr [Finite 1, Finite 1, Finite 1, Finite 1]
   \<and> find_rhythm_patterns_f64
        (map (\<lambda>s. make_note_f64 (Finite s) (Finite (s + 1)) 60 100 0) [0, 1, 2, 3, 4])
        (Finite 1) = Inr [([Finite 1, Finite 1, Finite 1, Finite 1], 1)]
   \<and> (\<exists>patterns.
         find_rhythm_patterns_f64
           (map (\<lambda>s. make_note_f64 (Finite s) (Finite (s + 1)) 60 100 0) [0, 1, 2, 3, 4])
           (Finite 1) = Inr patterns
         \<and> sum_list (map snd patterns) = 1)"
proof -
  let ?ns = "map (\<lambda>s. make_note_f64 (Finite s) (Finite (s + 1)) 60 100 0) [0, 1, 2, 3, 4]"
  have srt: "sorted_wrt (\<lambda>a b. float_le (start_f64 a) (start_f64 b)) ?ns"
    by (simp add: make_note_f64_def float_le_def)
  have pos: "float_lt (Finite 0) (Finite 1)" by simp
  have iois5: "map (quantized_ioi_f64 ?ns (Finite 1)) [1..<5]
       = map Inr [Finite 1, Finite 1, Finite 1, Finite 1]"
    by (simp add: eval_simps)
  have iois: "map (quantized_ioi_f64 ?ns (Finite 1)) [1..<length ?ns]
       = map Inr [Finite 1, Finite 1, Finite 1, Finite 1]"
    by (simp add: eval_simps)
  have run: "find_rhythm_patterns_f64 ?ns (Finite 1)
       = Inr [([Finite 1, Finite 1, Finite 1, Finite 1], 1)]"
    by (simp add: eval_simps)
  from pattern_histogram_size_f64 [OF srt pos all_quotients_finite [OF iois]]
  have ex: "\<exists>patterns. find_rhythm_patterns_f64 ?ns (Finite 1) = Inr patterns
         \<and> sum_list (map snd patterns) = 1"
    by auto
  show ?thesis by (intro conjI srt pos iois5 run ex)
qed

subsection \<open>Notes in any order\<close>

text \<open>
  Claim C10, where it fails. The claim covers every quantization \<open>\<noteq> 0\<close>. With two notes
  starting at \<open>1\<close> and \<open>0\<close> and the quantization \<open>-2^-1074\<close> (about \<^verbatim>\<open>-5e-324\<close>) the
  quotient overflows and \<^verbatim>\<open>round\<close> raises \<^verbatim>\<open>OverflowError\<close>; with the quantization
  \<^verbatim>\<open>nan\<close>, which is not equal to \<open>0\<close> either, \<^verbatim>\<open>round\<close> raises \<^verbatim>\<open>ValueError\<close>.
\<close>

theorem unsorted_overflow:
  "\<not> sorted_wrt (\<lambda>a b. float_le (start_f64 a) (start_f64 b))
       [make_note_f64 (Finite 1) (Finite 2) 60 100 0, make_note_f64 (Finite 0) (Finite 1) 60 100 0]
   \<and> Finite (- (2 powi (- 1074))) \<noteq> Finite 0
   \<and> find_rhythm_patterns_f64
        [make_note_f64 (Finite 1) (Finite 2) 60 100 0, make_note_f64 (Finite 0) (Finite 1) 60 100 0]
        (Finite (- (2 powi (- 1074)))) = Inl OverflowError
   \<and> find_rhythm_patterns_f64
        [make_note_f64 (Finite 1) (Finite 2) 60 100 0, make_note_f64 (Finite 0) (Finite 1) 60 100 0]
        NaN = Inl ValueError"
proof -
  let ?ns = "[make_note_f64 (Finite 1) (Finite 2) 60 100 0,
              make_note_f64 (Finite 0) (Finite 1) 60 100 0]"
  have uns: "\<not> sorted_wrt (\<lambda>a b. float_le (start_f64 a) (start_f64 b)) ?ns"
    by (simp add: make_note_f64_def float_le_def)
  have "- ((2::real) powi (- 1074)) \<noteq> 0" by simp
  then have nz: "Finite (- (2 powi (- 1074))) \<noteq> Finite 0" by (simp only: pyfloat.inject not_False_eq_True)
  have run: "find_rhythm_patterns_f64 ?ns (Finite (- (2 powi (- 1074)))) = Inl OverflowError"
    using tiny_divisor(2) by (rule overflow_run_unsorted)
  have nan: "find_rhythm_patterns_f64 ?ns NaN = Inl ValueError"
    by (simp add: eval_simps)
  show ?thesis by (intro conjI uns nz run nan)
qed

text \<open>
  Claim C10, amended. For notes in any order and any quantization, the pattern finder
  returns a histogram exactly when every quotient
  \<^verbatim>\<open>(note_events[i]['start'] - note_events[i-1]['start']) / quantization\<close> is a finite float
  (so not when the quantization is zero and there are two notes); and whenever it
  returns, its counts add up to \<open>max(0, N - 4)\<close>.
\<close>

theorem unsorted_total_f64:
  "((\<exists>patterns. find_rhythm_patterns_f64 note_events quantization = Inr patterns)
      \<longleftrightarrow> (\<forall>i \<in> set [1..<length note_events].
             \<exists>r. float_div (float_sub (start_f64 (note_events ! i))
                                       (start_f64 (note_events ! (i - 1)))) quantization
                   = Inr (Finite r)))
   \<and> (\<forall>patterns. find_rhythm_patterns_f64 note_events quantization = Inr patterns
         \<longrightarrow> sum_list (map snd patterns) = max 0 (int (length note_events) - 4))"
  using find_rhythm_patterns_f64_returns [of note_events quantization]
    find_rhythm_patterns_f64_total [of note_events quantization]
  by blast

theorem unsorted_total_f64_witness:
  "\<not> sorted_wrt (\<lambda>a b. float_le (start_f64 a) (start_f64 b))
       (map (\<lambda>s. make_note_f64 (Finite s) (Finite (s + 1)) 60 100 0) [2, 0, 1, 3, 1])
   \<and> find_rhythm_patterns_f64
        (map (\<lambda>s. make_note_f64 (Finite s) (Finite (s + 1)) 60 100 0) [2, 0, 1, 3, 1])
        (Finite (- 1))
       = Inr [([Finite (- 2), Finite 1, Finite 2, Finite (- 2)], 1)]
   \<and> sum_list (map snd [([Finite (- 2), Finite 1, Finite 2, Finite (- 2)], 1 :: int)])
       = max 0 (int (length (map (\<lambda>s. make_note_f64 (Finite s) (Finite (s + 1)) 60 100 0)
                               [2, 0, 1, 3, 1 :: real])) - 4)"
proof -
  let ?ns = "map (\<lambda>s. make_note_f64 (Finite s) (Finite (s + 1)) 60 100 0) [2, 0, 1, 3, 1]"
  have run: "find_rhythm_patterns_f64 ?ns (Finite (- 1))
       = Inr [([Finite (- 2), Finite 1, Finite 2, Finite (- 2)], 1)]"
    by (simp add: eval_simps)
  have uns: "\<not> sorted_wrt (\<lambda>a b. float_le (start_f64 a) (start_f64 b)) ?ns"
    by (simp add: make_note_f64_def float_le_def)
  from unsorted_total_f64 [of ?ns "Finite (- 1)"] run
  have "sum_list (map snd [([Finite (- 2), Finite 1, Finite 2, Finite (- 2)], 1 :: int)])
       = max 0 (int (length ?ns) - 4)"
    by simp
  with run uns show ?thesis by blast
qed

section \<open>The density profiler in binary64\<close>











section \<open>The syncopation scorer in binary64\<close>

lemma float_of_int_valid:
  assumes "0 \<le> v" and "v \<le> 127"
  shows "float_of_int v = Inr (Finite (of_int v))"
proof -
  have "\<bar>v\<bar> < 2 ^ 53" using assms by simp
  then show ?thesis by (simp add: float_of_int_def round_b64_int)
qed

lemma float_of_int_cases:
  "(\<exists>e. float_of_int v = Inl e) \<or> (\<exists>y. float_of_int v = Inr (Finite y) \<and> (v \<le> 0 \<longrightarrow> y \<le> 0))"
proof (cases "round_b64 (of_int v)")
  case (Finite y)
  have "v \<le> 0 \<longrightarrow> y \<le> 0"
  proof
    assume "v \<le> 0"
    then have "(of_int v :: real) \<le> 0" by simp
    from round_b64_nonpos [OF this] Finite show "y \<le> 0" by simp
  qed
  then show ?thesis using Finite by (simp add: float_of_int_def)
qed (simp_all add: float_of_int_def)

lemma velocity_factor_range:
  assumes "0 \<le> y" and "y \<le> 127"
  shows "\<exists>vf. float_div (Finite y) (float_literal 127) = Inr (Finite vf) \<and> 0 \<le> vf \<and> vf \<le> 1"
proof -
  have "0 \<le> y / 127" "y / 127 \<le> 1" using assms by simp_all
  then obtain vf where "round_b64 (y / 127) = Finite vf" "0 \<le> vf" "vf \<le> 1"
    using round_b64_unit_interval [OF _ _ is_double_1] by blast
  then show ?thesis by (simp add: float_literal_127)
qed

lemma velocity_factor_nonpos:
  assumes "y \<le> 0"
  shows "\<exists>vf. float_div (Finite y) (float_literal 127) = Inr vf
           \<and> \<not> float_lt (float_literal (1 / 2)) vf"
proof -
  have "y / 127 \<le> 0" using assms by simp
  from round_b64_nonpos [OF this] show ?thesis
    by (auto simp: float_literal_127 float_literal_half)
qed

lemma score_range:
  assumes "0 \<le> vf" and "vf \<le> 1" and "0 \<le> f" and "f \<le> 1"
  shows "\<exists>y. float_mul (Finite vf) (float_sub (float_literal 1) (Finite f)) = Finite y
           \<and> 0 \<le> y \<and> y \<le> 1
           \<and> (3602879701896397 / 2 ^ 55 \<le> f \<longrightarrow> y \<le> 8106479329266893 / 2 ^ 53)"
proof -
  have "0 \<le> 1 - f" "1 - f \<le> 1" using assms by simp_all
  then obtain g where g: "round_b64 (1 - f) = Finite g" "0 \<le> g" "g \<le> 1"
    using round_b64_unit_interval [OF _ _ is_double_1] by blast
  have sub: "float_sub (float_literal 1) (Finite f) = Finite g"
    using g(1) by (simp add: float_sub_def float_literal_1)
  have "0 \<le> vf * g" using assms(1) g(2) by simp
  moreover have "vf * g \<le> 1 * 1" using assms(1,2) g(2,3) by (intro mult_mono) simp_all
  ultimately obtain y where y: "round_b64 (vf * g) = Finite y" "0 \<le> y" "y \<le> 1"
    using round_b64_unit_interval [OF _ _ is_double_1, of "vf * g"] by auto
  have tight: "y \<le> 8106479329266893 / 2 ^ 53" if f: "3602879701896397 / 2 ^ 55 \<le> f"
  proof -
    have "1 - f \<le> 8106479329266893 / 2 ^ 53" using f by simp
    with \<open>0 \<le> 1 - f\<close> obtain g' where
      "round_b64 (1 - f) = Finite g'" "g' \<le> 8106479329266893 / 2 ^ 53"
      using round_b64_unit_interval [OF _ _ is_double_nine_tenths, of "1 - f"] by blast
    then have g9: "g \<le> 8106479329266893 / 2 ^ 53" using g(1) by simp
    have "vf * g \<le> 1 * g" using assms(2) g(2) by (intro mult_right_mono) simp_all
    then have "vf * g \<le> 8106479329266893 / 2 ^ 53" using g9 by simp
    with \<open>0 \<le> vf * g\<close> obtain y' where
      "round_b64 (vf * g) = Finite y'" "y' \<le> 8106479329266893 / 2 ^ 53"
      using round_b64_unit_interval [OF _ _ is_double_nine_tenths, of "vf * g"] by blast
    then show ?thesis using y(1) by simp
  qed
  show ?thesis using sub y tight by simp
qed

lemma fractional_f64_range:
  assumes "is_double b" and "b \<noteq> 0"
  shows "\<exists>p f. float_rem (Finite s) (Finite b) = Inr (Finite p)
           \<and> float_rem (Finite p) (float_literal 1) = Inr (Finite f)
           \<and> fractional_f64 (Finite s) (Finite b) = Finite f \<and> 0 \<le> f \<and> f \<le> 1"
proof -
  from float_rem_finite [OF assms] obtain p where
    p: "float_rem (Finite s) (Finite b) = Inr (Finite p)" by blast
  from float_rem_one [of p] obtain f where
    f: "float_rem (Finite p) (float_literal 1) = Inr (Finite f)" "0 \<le> f" "f \<le> 1" by blast
  show ?thesis using p f by (simp add: fractional_f64_def)
qed

lemma syncopation_body_valid:
  assumes "start_f64 note = Finite s" and "is_double b" and "b \<noteq> 0"
    and "0 \<le> velocity_f64 note" and "velocity_f64 note \<le> 127"
  shows "syncopation_body_f64 note (Finite b)
           = Inr (if syncopated_f64 note (Finite b)
                  then Some (start_f64 note, score_f64 note (Finite b)) else None)"
    and "\<exists>y. score_f64 note (Finite b) = Finite y \<and> 0 \<le> y \<and> y \<le> 1"
proof -
  from fractional_f64_range [OF assms(2,3), of s] obtain p f where
    p: "float_rem (Finite s) (Finite b) = Inr (Finite p)"
    and f: "float_rem (Finite p) (float_literal 1) = Inr (Finite f)"
    and fr: "fractional_f64 (Finite s) (Finite b) = Finite f" and f01: "0 \<le> f" "f \<le> 1"
    by blast
  have vi: "float_of_int (velocity_f64 note) = Inr (Finite (of_int (velocity_f64 note)))"
    using assms(4,5) by (rule float_of_int_valid)
  have "0 \<le> (of_int (velocity_f64 note) :: real)" "(of_int (velocity_f64 note) :: real) \<le> 127"
    using assms(4,5) by simp_all
  from velocity_factor_range [OF this] obtain vf where
    vf: "float_div (Finite (of_int (velocity_f64 note))) (float_literal 127) = Inr (Finite vf)"
    and vf01: "0 \<le> vf" "vf \<le> 1" by blast
  have vfd: "velocity_factor_f64 note = Finite vf"
    using vi vf by (simp add: velocity_factor_f64_def)
  show "syncopation_body_f64 note (Finite b)
           = Inr (if syncopated_f64 note (Finite b)
                  then Some (start_f64 note, score_f64 note (Finite b)) else None)"
    using p f vi vf
    by (simp add: syncopation_body_f64_def syncopated_f64_def score_f64_def
        assms(1) fr vfd Let_def)
  from score_range [OF vf01 f01]
  show "\<exists>y. score_f64 note (Finite b) = Finite y \<and> 0 \<le> y \<and> y \<le> 1"
    by (auto simp: score_f64_def assms(1) fr vfd)
qed

lemma syncopation_body_bounded:
  assumes "start_f64 note = Finite s" and "is_double b" and "b \<noteq> 0"
    and "velocity_f64 note \<le> 127"
  shows "(\<exists>e. syncopation_body_f64 note (Finite b) = Inl e)
       \<or> syncopation_body_f64 note (Finite b) = Inr None
       \<or> (\<exists>y. syncopation_body_f64 note (Finite b) = Inr (Some (start_f64 note, Finite y))
              \<and> 0 \<le> y \<and> y \<le> 8106479329266893 / 2 ^ 53)"
proof -
  from fractional_f64_range [OF assms(2,3), of s] obtain p f where
    p: "float_rem (Finite s) (Finite b) = Inr (Finite p)"
    and f: "float_rem (Finite p) (float_literal 1) = Inr (Finite f)"
    and f01: "0 \<le> f" "f \<le> 1"
    by blast
  from float_of_int_cases [of "velocity_f64 note"] show ?thesis
  proof
    assume "\<exists>e. float_of_int (velocity_f64 note) = Inl e"
    then show ?thesis
      using p f by (auto simp: syncopation_body_f64_def assms(1) Let_def)
  next
    assume "\<exists>y. float_of_int (velocity_f64 note) = Inr (Finite y)
               \<and> (velocity_f64 note \<le> 0 \<longrightarrow> y \<le> 0)"
    then obtain vi where vi: "float_of_int (velocity_f64 note) = Inr (Finite vi)"
      and neg: "velocity_f64 note \<le> 0 \<longrightarrow> vi \<le> 0" by blast
    show ?thesis
    proof (cases "velocity_f64 note \<le> 0")
      case True
      then have "vi \<le> 0" using neg by simp
      from velocity_factor_nonpos [OF this] obtain vf where
        "float_div (Finite vi) (float_literal 127) = Inr vf"
        "\<not> float_lt (float_literal (1 / 2)) vf" by blast
      then have "syncopation_body_f64 note (Finite b) = Inr None"
        using p f vi by (simp add: syncopation_body_f64_def assms(1) Let_def)
      then show ?thesis by simp
    next
      case False
      then have v: "0 \<le> velocity_f64 note" by simp
      have "vi = of_int (velocity_f64 note)"
        using vi float_of_int_valid [OF v assms(4)] by simp
      then have "0 \<le> vi" "vi \<le> 127" using v assms(4) by simp_all
      from velocity_factor_range [OF this] obtain vf where
        vf: "float_div (Finite vi) (float_literal 127) = Inr (Finite vf)"
        and vf01: "0 \<le> vf" "vf \<le> 1" by blast
      from score_range [OF vf01 f01] obtain y where
        y: "float_mul (Finite vf) (float_sub (float_literal 1) (Finite f)) = Finite y"
        "0 \<le> y" "3602879701896397 / 2 ^ 55 \<le> f \<longrightarrow> y \<le> 8106479329266893 / 2 ^ 53"
        by blast
      show ?thesis
      proof (cases "\<not> float_lt (Finite f) (float_literal (1 / 10))
                    \<and> float_lt (float_literal (1 / 2)) (Finite vf)")
        case True
        then have "3602879701896397 / 2 ^ 55 \<le> f" by (simp add: float_literal_tenth)
        then have "y \<le> 8106479329266893 / 2 ^ 53" using y(3) by simp
        moreover have "syncopation_body_f64 note (Finite b)
                         = Inr (Some (start_f64 note, Finite y))"
          using p f vi vf True y(1) by (simp add: syncopation_body_f64_def assms(1) Let_def)
        ultimately show ?thesis using y(2) by blast
      next
        case False
        then have "syncopation_body_f64 note (Finite b) = Inr None"
          using p f vi vf by (auto simp: syncopation_body_f64_def assms(1) Let_def)
        then show ?thesis by simp
      qed
    qed
  qed
qed

lemma syncopation_loop_f64_ok:
  assumes "\<forall>note \<in> set ns. syncopation_body_f64 note bpb = Inr (g note)"
  shows "syncopation_loop_f64 ns bpb acc = Inr (acc @ List.map_filter g ns)"
  using assms
proof (induction ns arbitrary: acc)
  case Nil
  then show ?case by (simp add: List.map_filter_simps)
next
  case (Cons n rest)
  then show ?case by (cases "g n") (simp_all add: List.map_filter_simps)
qed

lemma syncopation_loop_f64_members:
  assumes "syncopation_loop_f64 ns bpb acc = Inr recs"
  shows "\<forall>r \<in> set recs. r \<in> set acc
           \<or> (\<exists>note \<in> set ns. syncopation_body_f64 note bpb = Inr (Some r))"
  using assms
proof (induction ns arbitrary: acc)
  case Nil
  then show ?case by simp
next
  case (Cons n rest)
  show ?case
  proof (cases "syncopation_body_f64 n bpb")
    case (Inl e)
    then show ?thesis using Cons.prems by simp
  next
    case (Inr res)
    show ?thesis
    proof (cases res)
      case None
      then show ?thesis using Inr Cons by auto
    next
      case (Some r)
      then have "syncopation_loop_f64 rest bpb (acc @ [r]) = Inr recs"
        using Inr Cons.prems by simp
      from Cons.IH [OF this] show ?thesis using Inr Some by auto
    qed
  qed
qed

lemma map_filter_if:
  "List.map_filter (\<lambda>x. if P x then Some (f x) else None) xs = map f (filter P xs)"
  by (induction xs) simp_all

lemma analyze_syncopation_f64_zero:
  "analyze_syncopation_f64 ns (Finite 0) = (if ns = [] then Inr [] else Inl ZeroDivisionError)"
  by (cases ns)
     (simp_all add: analyze_syncopation_f64_def syncopation_body_f64_def float_rem_def)

lemmas sync_simps =
  analyze_syncopation_f64_def syncopation_body_f64_def float_rem_def c_trunc_def Let_def
  float_sub_def float_of_int_def make_note_f64_def float_literal_1 float_literal_127
  float_literal_half float_literal_tenth round_b64_0 round_b64_1 round_b64_half
  round_b64_numeral round_b64_values round_b64_below_one ceiling_tiny

text \<open>
  Claim C3, where it fails. The claim covers every note list and every
  \<^verbatim>\<open>beats_per_bar\<close>. With \<^verbatim>\<open>beats_per_bar = 0\<close> the first \<^verbatim>\<open>%\<close> raises
  \<^verbatim>\<open>ZeroDivisionError\<close> and nothing is emitted. And a note whose start is \<^verbatim>\<open>inf\<close>, with
  velocity \<open>127\<close>, is emitted with the score \<^verbatim>\<open>nan\<close>, which lies in no interval.
\<close>

theorem syncopation_zero_beats:
  "analyze_syncopation_f64 [make_note_f64 (Finite (1 / 2)) (Finite 1) 60 100 0] (Finite 0)
     = Inl ZeroDivisionError
   \<and> analyze_syncopation_f64 [make_note_f64 PosInf PosInf 60 127 0] (Finite 4)
     = Inr [(PosInf, NaN)]"
  by (simp add: sync_simps)

text \<open>
  Claim C3, amended. Let \<^verbatim>\<open>beats_per_bar\<close> be a finite float other than \<open>0\<close>, and let
  every note have a finite start and a velocity from \<open>0\<close> to \<open>127\<close>. Then the scorer
  returns, in the order of the notes, one record for each note with
  \<^verbatim>\<open>not (fractional < 0.1) and velocity / 127.0 > 0.5\<close>, where \<^verbatim>\<open>fractional\<close> is
  \<^verbatim>\<open>(start % beats_per_bar) % 1.0\<close> in float arithmetic, and for no other note; the
  record holds the note's start and the score \<^verbatim>\<open>velocity_factor * (1 - fractional)\<close>;
  and the score of every note is a finite float in \<open>[0, 1]\<close>.
\<close>

theorem syncopation_filter_f64:
  assumes "beats_per_bar = Finite b" and "is_double b" and "b \<noteq> 0"
    and "\<forall>note \<in> set note_events.
           (\<exists>s. start_f64 note = Finite s) \<and> 0 \<le> velocity_f64 note \<and> velocity_f64 note \<le> 127"
  shows "analyze_syncopation_f64 note_events beats_per_bar
      = Inr (map (\<lambda>note. (start_f64 note, score_f64 note beats_per_bar))
               (filter (\<lambda>note. syncopated_f64 note beats_per_bar) note_events))
    \<and> (\<forall>note \<in> set note_events.
          \<exists>y. score_f64 note beats_per_bar = Finite y \<and> 0 \<le> y \<and> y \<le> 1)"
proof -
  have body: "\<forall>note \<in> set note_events. syncopation_body_f64 note (Finite b)
      = Inr (if syncopated_f64 note (Finite b)
             then Some (start_f64 note, score_f64 note (Finite b)) else None)"
    using assms(4) syncopation_body_valid(1) [OF _ assms(2,3)] by blast
  have range: "\<forall>note \<in> set note_events.
      \<exists>y. score_f64 note (Finite b) = Finite y \<and> 0 \<le> y \<and> y \<le> 1"
    using assms(4) syncopation_body_valid(2) [OF _ assms(2,3)] by blast
  from syncopation_loop_f64_ok [OF body, of "[]"]
  have "analyze_syncopation_f64 note_events (Finite b)
      = Inr (map (\<lambda>note. (start_f64 note, score_f64 note (Finite b)))
               (filter (\<lambda>note. syncopated_f64 note (Finite b)) note_events))"
    by (simp add: analyze_syncopation_f64_def map_filter_if)
  then show ?thesis using range by (simp add: assms(1))
qed

theorem syncopation_filter_f64_witness:
  "Finite 4 = Finite 4 \<and> is_double 4 \<and> (4::real) \<noteq> 0
   \<and> start_f64 (make_note_f64 (Finite (1 / 2)) (Finite 1) 60 127 0) = Finite (1 / 2)
   \<and> 0 \<le> velocity_f64 (make_note_f64 (Finite (1 / 2)) (Finite 1) 60 127 0)
   \<and> velocity_f64 (make_note_f64 (Finite (1 / 2)) (Finite 1) 60 127 0) \<le> 127
   \<and> analyze_syncopation_f64 [make_note_f64 (Finite (1 / 2)) (Finite 1) 60 127 0] (Finite 4)
       = Inr [(Finite (1 / 2), Finite (1 / 2))]
   \<and> analyze_syncopation_f64 [make_note_f64 (Finite (1 / 2)) (Finite 1) 60 127 0] (Finite 4)
       = Inr (map (\<lambda>note. (start_f64 note, score_f64 note (Finite 4)))
               (filter (\<lambda>note. syncopated_f64 note (Finite 4))
                  [make_note_f64 (Finite (1 / 2)) (Finite 1) 60 127 0]))"
proof -
  let ?n = "make_note_f64 (Finite (1 / 2)) (Finite 1) 60 127 0"
  have s: "start_f64 ?n = Finite (1 / 2)" and v0: "0 \<le> velocity_f64 ?n"
    and v1: "velocity_f64 ?n \<le> 127"
    by (simp_all add: make_note_f64_def)
  have valid: "\<forall>note \<in> set [?n].
      (\<exists>s. start_f64 note = Finite s) \<and> 0 \<le> velocity_f64 note \<and> velocity_f64 note \<le> 127"
  proof (rule ballI)
    fix nt assume "nt \<in> set [?n]"
    then have "nt = ?n" by simp
    then show "(\<exists>s. start_f64 nt = Finite s) \<and> 0 \<le> velocity_f64 nt \<and> velocity_f64 nt \<le> 127"
      using s v0 v1 by blast
  qed
  have nz: "(4::real) \<noteq> 0" by simp
  have run: "analyze_syncopation_f64 [?n] (Finite 4) = Inr [(Finite (1 / 2), Finite (1 / 2))]"
    by (simp add: sync_simps)
  from syncopation_filter_f64 [OF refl is_double_4 nz valid]
  have flt: "analyze_syncopation_f64 [?n] (Finite 4)
       = Inr (map (\<lambda>note. (start_f64 note, score_f64 note (Finite 4)))
               (filter (\<lambda>note. syncopated_f64 note (Finite 4)) [?n]))"
    by (rule conjunct1)
  show ?thesis by (intro conjI refl is_double_4 nz s v0 v1 run flt)
qed

text \<open>
  Claim C9, where it fails. The claim has every score strictly positive and
  \<^verbatim>\<open>fractional < 1\<close>. For a note starting at \<open>0.5\<close> with velocity \<open>127\<close> and
  \<^verbatim>\<open>beats_per_bar = -0.1\<close>, \<^verbatim>\<open>0.5 % -0.1\<close> is \<open>-2^-55\<close>; its remainder modulo \<open>1.0\<close> is
  the float sum \<^verbatim>\<open>-2^-55 + 1.0\<close>, which rounds to \<open>1.0\<close>. So \<^verbatim>\<open>fractional\<close> is \<open>1.0\<close>, the
  note is emitted, and its score is \<open>0.0\<close>.
\<close>

theorem syncopation_score_zero:
  "velocity_f64 (make_note_f64 (Finite (1 / 2)) (Finite 1) 60 127 0) \<le> 127
   \<and> float_neg (float_literal (1 / 10)) = Finite (- (3602879701896397 / 2 ^ 55))
   \<and> analyze_syncopation_f64 [make_note_f64 (Finite (1 / 2)) (Finite 1) 60 127 0]
        (float_neg (float_literal (1 / 10)))
       = Inr [(Finite (1 / 2), Finite 0)]
   \<and> \<not> float_lt (Finite 0) (Finite 0)"
  by (simp add: sync_simps)

text \<open>
  Claim C9, amended. Let \<^verbatim>\<open>beats_per_bar\<close> be a finite float, and let every note have
  a velocity of at most \<open>127\<close> and a finite start. Then every score the scorer returns
  lies in the closed interval from \<open>0\<close> to the float \<^verbatim>\<open>0.9\<close>; and the scorer does return
  when \<^verbatim>\<open>beats_per_bar\<close> is not \<open>0\<close> and no velocity is negative.
\<close>

theorem syncopation_score_bound_f64:
  assumes "beats_per_bar = Finite b" and "is_double b"
    and "\<forall>note \<in> set note_events. velocity_f64 note \<le> 127 \<and> (\<exists>s. start_f64 note = Finite s)"
  shows "(b \<noteq> 0 \<and> (\<forall>note \<in> set note_events. 0 \<le> velocity_f64 note)
            \<longrightarrow> (\<exists>records. analyze_syncopation_f64 note_events beats_per_bar = Inr records))
    \<and> (\<forall>records. analyze_syncopation_f64 note_events beats_per_bar = Inr records
          \<longrightarrow> (\<forall>r \<in> set records.
                 float_le (Finite 0) (snd r) \<and> float_le (snd r) (float_literal (9 / 10))))"
proof (intro conjI impI allI)
  assume a: "b \<noteq> 0 \<and> (\<forall>note \<in> set note_events. 0 \<le> velocity_f64 note)"
  then have "\<forall>note \<in> set note_events. syncopation_body_f64 note (Finite b)
      = Inr (if syncopated_f64 note (Finite b)
             then Some (start_f64 note, score_f64 note (Finite b)) else None)"
    using assms(3) syncopation_body_valid(1) [OF _ assms(2), of _ _] by blast
  from syncopation_loop_f64_ok [OF this, of "[]"]
  show "\<exists>records. analyze_syncopation_f64 note_events beats_per_bar = Inr records"
    by (simp add: analyze_syncopation_f64_def assms(1))
next
  fix records
  assume run: "analyze_syncopation_f64 note_events beats_per_bar = Inr records"
  show "\<forall>r \<in> set records.
          float_le (Finite 0) (snd r) \<and> float_le (snd r) (float_literal (9 / 10))"
  proof (cases "b = 0")
    case True
    then have "records = []"
      using run by (simp add: assms(1) analyze_syncopation_f64_zero split: if_splits)
    then show ?thesis by simp
  next
    case False
    show ?thesis
    proof
      fix r assume "r \<in> set records"
      with syncopation_loop_f64_members [of note_events "Finite b" "[]" records] run
      obtain nt where nt: "nt \<in> set note_events"
        "syncopation_body_f64 nt (Finite b) = Inr (Some r)"
        by (auto simp: analyze_syncopation_f64_def assms(1))
      from assms(3) nt(1) obtain s where s: "start_f64 nt = Finite s"
        and v: "velocity_f64 nt \<le> 127" by blast
      from syncopation_body_bounded [OF s assms(2) False v] nt(2)
      obtain y where "r = (start_f64 nt, Finite y)" "0 \<le> y" "y \<le> 8106479329266893 / 2 ^ 53"
        by auto
      then show "float_le (Finite 0) (snd r) \<and> float_le (snd r) (float_literal (9 / 10))"
        by (auto simp: float_le_def float_literal_nine_tenths)
    qed
  qed
qed

theorem syncopation_score_bound_f64_witness:
  "Finite 4 = Finite 4 \<and> is_double 4
   \<and> velocity_f64 (make_note_f64 (Finite (1 / 2)) (Finite 1) 60 127 0) \<le> 127
   \<and> start_f64 (make_note_f64 (Finite (1 / 2)) (Finite 1) 60 127 0) = Finite (1 / 2)
   \<and> analyze_syncopation_f64 [make_note_f64 (Finite (1 / 2)) (Finite 1) 60 127 0] (Finite 4)
       = Inr [(Finite (1 / 2), Finite (1 / 2))]
   \<and> float_le (Finite 0) (Finite (1 / 2))
   \<and> float_le (Finite (1 / 2)) (float_literal (9 / 10))"
proof -
  let ?n = "make_note_f64 (Finite (1 / 2)) (Finite 1) 60 127 0"
  have s: "start_f64 ?n = Finite (1 / 2)" and v1: "velocity_f64 ?n \<le> 127"
    by (simp_all add: make_note_f64_def)
  have valid: "\<forall>note \<in> set [?n]. velocity_f64 note \<le> 127 \<and> (\<exists>s. start_f64 note = Finite s)"
  proof (rule ballI)
    fix nt assume "nt \<in> set [?n]"
    then have "nt = ?n" by simp
    then show "velocity_f64 nt \<le> 127 \<and> (\<exists>s. start_f64 nt = Finite s)"
      using s v1 by blast
  qed
  have run: "analyze_syncopation_f64 [?n] (Finite 4) = Inr [(Finite (1 / 2), Finite (1 / 2))]"
    by (simp add: sync_simps)
  from syncopation_score_bound_f64 [OF refl is_double_4 valid] run
  have "\<forall>r \<in> set [(Finite (1 / 2), Finite (1 / 2))].
          float_le (Finite 0) (snd r) \<and> float_le (snd r) (float_literal (9 / 10))"
    by blast
  then have b: "float_le (Finite 0) (Finite (1 / 2))"
    "float_le (Finite (1 / 2)) (float_literal (9 / 10))" by simp_all
  show ?thesis by (intro conjI refl is_double_4 v1 s run b)
qed

section \<open>Zero and negative parameters\<close>





lemma float_div_zero: "float_div a (Finite 0) = Inl ZeroDivisionError"
  by simp





end
